theory Spec2Isabelle
  imports Main "HOL-Library.Sublist" "HOL-Library.Multiset" "HOL-Library.Char_ord"
    "HOL-Library.List_Lexorder" "HOL-Library.Product_Lexorder"
begin

section \<open>Common vocabulary\<close>

text \<open>
  Python strings are modelled as \<^typ>\<open>string\<close>: lists of 8-bit characters, read as the code
  points 0..255. Exceptions are values of \<open>py_error\<close>; a function that can raise returns
  \<open>py_error + 'a\<close> with \<open>Inl\<close> the exception that leaves the function.
\<close>

datatype py_error =
    ValueError
  | TypeError
  | KeyError
  | AttributeError
  | RequestException
  | APIError
  | BuildError
  | OSError
  | ReError
  | IndexError

definition is_digit :: "char \<Rightarrow> bool" where
  "is_digit c = (c \<in> set ''0123456789'')"

text \<open>\<open>needle in haystack\<close> on Python strings: a contiguous occurrence.\<close>

fun contains :: "string \<Rightarrow> string \<Rightarrow> bool" where
  "contains [] needle = (needle = [])"
| "contains (c # cs) needle = (prefix needle (c # cs) \<or> contains cs needle)"

text \<open>
  \<open>str.lower()\<close> on code points below 256: the ASCII capitals and the Latin-1 capitals
  (U+00C0..U+00DE without the multiplication sign U+00D7) move up by 32.
\<close>

definition lower_char :: "char \<Rightarrow> char" where
  "lower_char c =
     (let n = (of_char c :: nat) in
      if (65 \<le> n \<and> n \<le> 90) \<or> (192 \<le> n \<and> n \<le> 222 \<and> n \<noteq> 215)
      then char_of (n + 32) else c)"

definition lower :: "string \<Rightarrow> string" where
  "lower s = map lower_char s"

section \<open>The ticket automation (\<open>.github/scripts/jira_automation.py\<close>)\<close>

subsection \<open>The world outside: HTTP replies and what the script does to it\<close>

text \<open>
  The part of a JSON document the script reads: objects and strings; everything else is
  \<open>JOther\<close>. Subscripting a string key raises \<open>KeyError\<close> on an object without the key and
  \<open>TypeError\<close> on anything that is not an object.
\<close>

datatype json = JStr string | JObj "(string \<times> json) list" | JOther

fun subscript :: "json \<Rightarrow> string \<Rightarrow> py_error + json" where
  "subscript (JObj kvs) k = (case map_of kvs k of None \<Rightarrow> Inl KeyError | Some v \<Rightarrow> Inr v)"
| "subscript _ k = Inl TypeError"

text \<open>\<open>.lower()\<close> of a JSON value: only a string has the method.\<close>

fun json_lower :: "json \<Rightarrow> py_error + string" where
  "json_lower (JStr s) = Inr (lower s)"
| "json_lower _ = Inl AttributeError"

text \<open>
  What \<open>requests.get\<close> followed by \<open>raise_for_status\<close> does for the one URL the script
  reads: it raises \<open>RequestException\<close>, or gives a response whose \<open>.json()\<close> raises
  (\<open>BadBody\<close>) or returns a document.
\<close>

datatype http_reply = Raises | BadBody | Body json

record jira_world =
  get_reply :: http_reply
  post_raises :: bool

datatype message =
    ResponseStatusGet
  | ResponseStatusPost
  | ErrorWithResponse
  | ErrorCaught
  | AddingTicket string

text \<open>The effects of a run: the lines printed and the POSTs sent, (url, transition id), oldest first.\<close>

record effects =
  printed :: "message list"
  posts :: "(string \<times> string) list"

definition no_effects :: effects where
  "no_effects = \<lparr>printed = [], posts = []\<rparr>"

definition print :: "message \<Rightarrow> effects \<Rightarrow> effects" where
  "print m e = e\<lparr>printed := printed e @ [m]\<rparr>"

record UpdateJira =
  jira_domain :: string
  jira_token :: string
  ticket_id :: "string option"

subsection \<open>\<open>get_jira_ticket_id\<close>: \<open>re.search(r"vida[-_]?(\d{3,4})", ticket_id)\<close>\<close>

text \<open>
  The pattern tried at the start of \<open>s\<close>; the result is group 1. The optional separator is
  greedy, and giving it back cannot help (the separator is no digit); \<open>\d{3,4}\<close> is greedy
  too, so it takes four digits when there are four.
\<close>

definition match_vida :: "string \<Rightarrow> string option" where
  "match_vida s =
     (if prefix ''vida'' s then
        (let r = drop 4 s;
             r' = (case r of [] \<Rightarrow> r
                   | c # t \<Rightarrow> if c = CHR ''-'' \<or> c = CHR ''_'' then t else r);
             ds = takeWhile is_digit r'
         in if 3 \<le> length ds then Some (take 4 ds) else None)
      else None)"

text \<open>\<open>re.search\<close>: the leftmost position at which the pattern matches.\<close>

fun search_vida :: "string \<Rightarrow> string option" where
  "search_vida [] = None"
| "search_vida (c # cs) =
     (case match_vida (c # cs) of Some g \<Rightarrow> Some g | None \<Rightarrow> search_vida cs)"

definition get_jira_ticket_id :: "string \<Rightarrow> effects \<Rightarrow> string option \<times> effects" where
  "get_jira_ticket_id tid e =
     (case search_vida tid of
        Some vida_number \<Rightarrow>
          (let vida_branch_name = ''vida-'' @ vida_number
           in (Some vida_branch_name, print (AddingTicket vida_branch_name) e))
      | None \<Rightarrow> (None, e))"

text \<open>\<open>UpdateJira.__init__\<close>: the title is lowercased before the identifier is looked for.\<close>

definition UpdateJira_init :: "string \<Rightarrow> string \<Rightarrow> effects \<Rightarrow> UpdateJira \<times> effects" where
  "UpdateJira_init token title e =
     (let (tid, e') = get_jira_ticket_id (lower title) e
      in (\<lparr>jira_domain = ''jira.aledade.com'', jira_token = token, ticket_id = tid\<rparr>, e'))"

subsection \<open>The HTTP helpers and the two transitions\<close>

text \<open>An f-string prints \<open>None\<close> as the text \<open>None\<close>.\<close>

definition fmt_ticket :: "string option \<Rightarrow> string" where
  "fmt_ticket t = (case t of None \<Rightarrow> ''None'' | Some s \<Rightarrow> s)"

definition issue_url :: "UpdateJira \<Rightarrow> string" where
  "issue_url self = ''https://'' @ jira_domain self @ ''/rest/api/2/issue/'' @ fmt_ticket (ticket_id self)"

text \<open>\<open>get\<close>: a \<open>RequestException\<close> is caught, printed and turned into \<open>None\<close>.\<close>

definition http_get :: "jira_world \<Rightarrow> effects \<Rightarrow> http_reply option \<times> effects" where
  "http_get w e =
     (case get_reply w of
        Raises \<Rightarrow> (None, print ErrorWithResponse e)
      | r \<Rightarrow> (Some r, print ResponseStatusGet e))"

text \<open>\<open>post\<close>: the request is sent (and recorded) whether or not it then raises.\<close>

definition http_post :: "jira_world \<Rightarrow> string \<Rightarrow> string \<Rightarrow> effects \<Rightarrow> effects" where
  "http_post w url transition_id e =
     (let e' = e\<lparr>posts := posts e @ [(url, transition_id)]\<rparr>
      in if post_raises w then print ErrorWithResponse e' else print ResponseStatusPost e')"

text \<open>
  The body of the \<open>try\<close> in \<open>get_ticket_info\<close>: \<open>response.json()\<close> on \<open>None\<close> raises
  \<open>AttributeError\<close>; a body that is no JSON raises \<open>ValueError\<close>.
\<close>

definition read_ticket :: "http_reply option \<Rightarrow> py_error + (string \<times> string)" where
  "read_ticket response =
     (case response of
        None \<Rightarrow> Inl AttributeError
      | Some Raises \<Rightarrow> Inl AttributeError
      | Some BadBody \<Rightarrow> Inl ValueError
      | Some (Body data) \<Rightarrow>
          (case subscript data ''fields'' of Inl x \<Rightarrow> Inl x | Inr flds \<Rightarrow>
           case subscript flds ''issuetype'' of Inl x \<Rightarrow> Inl x | Inr it \<Rightarrow>
           case subscript it ''name'' of Inl x \<Rightarrow> Inl x | Inr itn \<Rightarrow>
           case json_lower itn of Inl x \<Rightarrow> Inl x | Inr issuetype \<Rightarrow>
           case subscript flds ''status'' of Inl x \<Rightarrow> Inl x | Inr st \<Rightarrow>
           case subscript st ''name'' of Inl x \<Rightarrow> Inl x | Inr stn \<Rightarrow>
           case json_lower stn of Inl x \<Rightarrow> Inl x | Inr status \<Rightarrow>
           Inr (issuetype, status)))"

text \<open>
  \<open>get_ticket_info\<close>: the pair is (issue_name, status). \<open>except Exception\<close> catches every
  error of the body, prints it, and the function falls off its end: it returns \<open>None\<close>.
\<close>

definition get_ticket_info ::
  "jira_world \<Rightarrow> UpdateJira \<Rightarrow> effects \<Rightarrow> (string \<times> string) option \<times> effects" where
  "get_ticket_info w self e =
     (let (response, e1) = http_get w e
      in case read_ticket response of
           Inl x \<Rightarrow> (None, print ErrorCaught e1)
         | Inr info \<Rightarrow> (Some info, e1))"

text \<open>\<open>has_ticket_issue\<close>: subscripting \<open>None\<close> raises \<open>TypeError\<close>.\<close>

definition has_ticket_issue :: "(string \<times> string) option \<Rightarrow> py_error + bool" where
  "has_ticket_issue ticket_info =
     (case ticket_info of
        None \<Rightarrow> Inl TypeError
      | Some (issue_name, status) \<Rightarrow> Inr (lower issue_name \<in> set [''story'', ''bug'']))"

definition change_status_to_in_progress ::
  "jira_world \<Rightarrow> UpdateJira \<Rightarrow> effects \<Rightarrow> (py_error + unit) \<times> effects" where
  "change_status_to_in_progress w self e =
     (let (ticket_info, e1) = get_ticket_info w self e
      in case has_ticket_issue ticket_info of
           Inl x \<Rightarrow> (Inl x, e1)
         | Inr is_valid_issue_type \<Rightarrow>
            (case ticket_info of
               None \<Rightarrow> (Inr (), e1)
             | Some (issue_name, status) \<Rightarrow>
                (let url = issue_url self @ ''/transitions''
                 in if is_valid_issue_type then
                      (if contains status ''backlog'' then (Inr (), http_post w url ''121'' e1)
                       else if contains status ''selected'' then (Inr (), http_post w url ''21'' e1)
                       else (Inr (), e1))
                    else (Inr (), e1))))"

definition change_status_to_needs_review ::
  "jira_world \<Rightarrow> UpdateJira \<Rightarrow> effects \<Rightarrow> (py_error + unit) \<times> effects" where
  "change_status_to_needs_review w self e =
     (let (ticket_info, e1) = get_ticket_info w self e
      in case has_ticket_issue ticket_info of
           Inl x \<Rightarrow> (Inl x, e1)
         | Inr is_valid_issue_type \<Rightarrow>
            (case ticket_info of
               None \<Rightarrow> (Inr (), e1)
             | Some (issue_name, status) \<Rightarrow>
                (let url = issue_url self @ ''/transitions''
                 in if is_valid_issue_type then
                      (if contains status ''progress'' then (Inr (), http_post w url ''151'' e1)
                       else (Inr (), e1))
                    else (Inr (), e1))))"

text \<open>
  The words of the claim about the identifier: the text holds \<open>vida\<close>, then at most one
  \<open>-\<close> or \<open>_\<close>, then three digits (a fourth digit, when it follows, is captured too).
\<close>

definition has_vida :: "string \<Rightarrow> bool" where
  "has_vida s = (\<exists>pre sep ds post. s = pre @ ''vida'' @ sep @ ds @ post
       \<and> sep \<in> {[], ''-'', ''_''} \<and> length ds = 3 \<and> (\<forall>d\<in>set ds. is_digit d))"

subsection \<open>Facts about the ticket automation\<close>

lemma get_ticket_info_posts: "posts (snd (get_ticket_info w self e)) = posts e"
  by (simp add: get_ticket_info_def http_get_def print_def split: http_reply.splits sum.splits prod.splits)

lemma get_ticket_info_absent_iff:
  "fst (get_ticket_info w self e) = None \<longleftrightarrow> (\<exists>x. read_ticket (fst (http_get w e)) = Inl x)"
  by (auto simp: get_ticket_info_def split: prod.splits sum.splits)

text \<open>
  C9. When the ticket-info fetch fails, \<open>get_ticket_info\<close> does catch the error and yields
  an absent result, and no POST is sent; but both transitions then call
  \<open>has_ticket_issue\<close> on the absent result before they test it, and leave with
  \<open>TypeError\<close> instead of terminating normally.
\<close>

theorem change_status_absent_ticket_raises:
  assumes "fst (get_ticket_info w self e) = None"
  shows "fst (change_status_to_in_progress w self e) = Inl TypeError
       \<and> fst (change_status_to_needs_review w self e) = Inl TypeError
       \<and> posts (snd (change_status_to_in_progress w self e)) = posts e
       \<and> posts (snd (change_status_to_needs_review w self e)) = posts e"
proof -
  obtain ti e1 where g: "get_ticket_info w self e = (ti, e1)"
    by (cases "get_ticket_info w self e")
  with assms have ti: "ti = None" by simp
  have p: "posts e1 = posts e"
    using get_ticket_info_posts [of w self e] g by simp
  show ?thesis
    by (simp add: change_status_to_in_progress_def change_status_to_needs_review_def
        g ti has_ticket_issue_def p)
qed

theorem change_status_absent_ticket_raises_witness:
  "fst (get_ticket_info \<lparr>get_reply = Raises, post_raises = False\<rparr>
          \<lparr>jira_domain = ''jira.aledade.com'', jira_token = ''t'', ticket_id = Some ''vida-123''\<rparr>
          no_effects) = None
   \<and> fst (change_status_to_in_progress \<lparr>get_reply = Raises, post_raises = False\<rparr>
          \<lparr>jira_domain = ''jira.aledade.com'', jira_token = ''t'', ticket_id = Some ''vida-123''\<rparr>
          no_effects) = Inl TypeError"
proof -
  have h: "fst (get_ticket_info \<lparr>get_reply = Raises, post_raises = False\<rparr>
          \<lparr>jira_domain = ''jira.aledade.com'', jira_token = ''t'', ticket_id = Some ''vida-123''\<rparr>
          no_effects) = None"
    by (simp add: get_ticket_info_def http_get_def read_ticket_def)
  from change_status_absent_ticket_raises [OF h] h show ?thesis by simp
qed

lemma match_vida_SomeD:
  assumes "match_vida s = Some g"
  shows "\<exists>sep post. s = ''vida'' @ sep @ g @ post \<and> sep \<in> {[], ''-'', ''_''}
           \<and> 3 \<le> length g \<and> length g \<le> 4 \<and> (\<forall>d\<in>set g. is_digit d)"
proof -
  from assms have p: "prefix ''vida'' s"
    by (simp add: match_vida_def split: if_splits)
  then obtain r where s: "s = ''vida'' @ r" by (auto simp: prefix_def)
  define r' where "r' = (case r of [] \<Rightarrow> r | c # t \<Rightarrow> if c = CHR ''-'' \<or> c = CHR ''_'' then t else r)"
  define ds where "ds = takeWhile is_digit r'"
  from assms p s have len: "3 \<le> length ds" and g: "g = take 4 ds"
    by (auto simp: match_vida_def Let_def r'_def ds_def split: if_splits)
  have "\<exists>sep. r = sep @ r' \<and> sep \<in> {[], ''-'', ''_''}"
  proof (cases r)
    case Nil
    then show ?thesis by (simp add: r'_def)
  next
    case (Cons c t)
    show ?thesis
    proof (cases "c = CHR ''-'' \<or> c = CHR ''_''")
      case True
      then have "r = [c] @ r'" "[c] \<in> {[], ''-'', ''_''}" using Cons by (auto simp: r'_def)
      then show ?thesis by blast
    next
      case False
      then have "r = [] @ r'" using Cons by (simp add: r'_def)
      then show ?thesis by blast
    qed
  qed
  then obtain sep where sep: "r = sep @ r'" "sep \<in> {[], ''-'', ''_''}" by blast
  have "r' = ds @ dropWhile is_digit r'" by (simp add: ds_def)
  also have "ds = g @ drop 4 ds" by (simp add: g)
  finally have "r' = g @ (drop 4 ds @ dropWhile is_digit r')" by simp
  moreover have "\<forall>d\<in>set g. is_digit d"
    using g ds_def by (metis in_set_takeD set_takeWhileD)
  moreover have "3 \<le> length g" "length g \<le> 4" using len g by auto
  ultimately show ?thesis using s sep by blast
qed

lemma match_vida_complete:
  assumes "sep \<in> {[], ''-'', ''_''}" "length ds = 3" "\<forall>d\<in>set ds. is_digit d"
  shows "match_vida (''vida'' @ sep @ ds @ post) \<noteq> None"
proof -
  obtain a b c where ds: "ds = [a, b, c]"
    using assms(2) by (metis length_0_conv length_Suc_conv numeral_3_eq_3)
  with assms(3) have d: "is_digit a" "is_digit b" "is_digit c" by auto
  have nsep: "a \<noteq> CHR ''-''" "a \<noteq> CHR ''_''" using d(1) by (auto simp: is_digit_def)
  from assms(1) show ?thesis
    using d nsep by (auto simp: match_vida_def ds Let_def)
qed

lemma search_vida_Some_iff:
  "search_vida s = Some g \<Longrightarrow> (\<exists>pre rest. s = pre @ rest \<and> match_vida rest = Some g)"
proof (induction s)
  case Nil then show ?case by simp
next
  case (Cons c cs)
  show ?case
  proof (cases "match_vida (c # cs)")
    case None
    with Cons obtain pre rest where "cs = pre @ rest" "match_vida rest = Some g" by auto
    then have "c # cs = (c # pre) @ rest" by simp
    then show ?thesis using \<open>match_vida rest = Some g\<close> by blast
  next
    case (Some a)
    with Cons.prems have "a = g" by simp
    with Some have "c # cs = [] @ (c # cs) \<and> match_vida (c # cs) = Some g" by simp
    then show ?thesis by blast
  qed
qed

lemma search_vida_complete:
  "match_vida rest \<noteq> None \<Longrightarrow> search_vida (pre @ rest) \<noteq> None"
proof (induction pre)
  case Nil
  then show ?case by (cases rest) (auto simp: match_vida_def split: option.splits)
next
  case (Cons a pre)
  then show ?case by (auto split: option.splits)
qed

lemma search_vida_None_iff: "search_vida s = None \<longleftrightarrow> \<not> has_vida s"
proof
  assume n: "search_vida s = None"
  show "\<not> has_vida s"
  proof
    assume "has_vida s"
    then obtain pre sep ds post where s: "s = pre @ ''vida'' @ sep @ ds @ post"
      and h: "sep \<in> {[], ''-'', ''_''}" "length ds = 3" "\<forall>d\<in>set ds. is_digit d"
      unfolding has_vida_def by blast
    from match_vida_complete [OF h] have "match_vida (''vida'' @ sep @ ds @ post) \<noteq> None" .
    from search_vida_complete [OF this, of pre] s n show False by simp
  qed
next
  assume nh: "\<not> has_vida s"
  show "search_vida s = None"
  proof (rule ccontr)
    assume "search_vida s \<noteq> None"
    then obtain g where "search_vida s = Some g" by auto
    from search_vida_Some_iff [OF this] obtain pre rest where
      s: "s = pre @ rest" and m: "match_vida rest = Some g" by blast
    from match_vida_SomeD [OF m] obtain sep post where
      r: "rest = ''vida'' @ sep @ g @ post" and sep: "sep \<in> {[], ''-'', ''_''}"
      and len: "3 \<le> length g" and dg: "\<forall>d\<in>set g. is_digit d" by blast
    have "g = take 3 g @ drop 3 g" by simp
    then have "s = pre @ ''vida'' @ sep @ take 3 g @ (drop 3 g @ post)"
      using s r by (metis append.assoc)
    moreover have "length (take 3 g) = 3" using len by simp
    moreover have "\<forall>d\<in>set (take 3 g). is_digit d" using dg by (meson in_set_takeD)
    ultimately have "has_vida s" unfolding has_vida_def using sep by blast
    with nh show False by simp
  qed
qed

text \<open>
  C10. \<open>get_jira_ticket_id\<close> returns \<open>None\<close> exactly when its input does not hold
  \<open>vida\<close>, an optional single \<open>-\<close> or \<open>_\<close> and three digits; what it returns otherwise is
  \<open>vida-\<close> followed by the three or four digits captured at that place of the input. The
  constructor stores the result for the lowercased title, so the stored \<open>ticket_id\<close> is
  \<open>None\<close> or \<open>vida-\<close> and three or four digits, whatever the separator and the letter case.
\<close>

theorem ticket_id_vida_or_none:
  "(fst (get_jira_ticket_id s e) = None \<longleftrightarrow> \<not> has_vida s)
   \<and> (\<forall>r. fst (get_jira_ticket_id s e) = Some r \<longrightarrow>
         (\<exists>pre sep ds post. r = ''vida-'' @ ds \<and> s = pre @ ''vida'' @ sep @ ds @ post
            \<and> sep \<in> {[], ''-'', ''_''} \<and> 3 \<le> length ds \<and> length ds \<le> 4
            \<and> (\<forall>d\<in>set ds. is_digit d)))
   \<and> ticket_id (fst (UpdateJira_init token title e)) = fst (get_jira_ticket_id (lower title) e)"
proof (intro conjI allI impI)
  show "fst (get_jira_ticket_id s e) = None \<longleftrightarrow> \<not> has_vida s"
    using search_vida_None_iff [of s]
    by (auto simp: get_jira_ticket_id_def Let_def split: option.splits)
next
  fix r assume "fst (get_jira_ticket_id s e) = Some r"
  then obtain g where g: "search_vida s = Some g" and r: "r = ''vida-'' @ g"
    by (auto simp: get_jira_ticket_id_def Let_def split: option.splits)
  from search_vida_Some_iff [OF g] obtain pre rest where
    s: "s = pre @ rest" and m: "match_vida rest = Some g" by blast
  from match_vida_SomeD [OF m] s r
  show "\<exists>pre sep ds post. r = ''vida-'' @ ds \<and> s = pre @ ''vida'' @ sep @ ds @ post
            \<and> sep \<in> {[], ''-'', ''_''} \<and> 3 \<le> length ds \<and> length ds \<le> 4
            \<and> (\<forall>d\<in>set ds. is_digit d)"
    by blast
next
  show "ticket_id (fst (UpdateJira_init token title e)) = fst (get_jira_ticket_id (lower title) e)"
    by (simp add: UpdateJira_init_def split: prod.splits)
qed

theorem ticket_id_vida_or_none_witness:
  "ticket_id (fst (UpdateJira_init ''t'' ''Feature/VIDA_12345-fix'' no_effects)) = Some ''vida-1234''
   \<and> has_vida ''feature/vida_12345-fix''"
proof -
  have l: "lower ''Feature/VIDA_12345-fix'' = ''feature/vida_12345-fix''"
    by code_simp
  have v: "fst (get_jira_ticket_id ''feature/vida_12345-fix'' no_effects) = Some ''vida-1234''"
    by (simp add: get_jira_ticket_id_def match_vida_def is_digit_def Let_def)
  from ticket_id_vida_or_none [of "''feature/vida_12345-fix''" no_effects "''t''" "''Feature/VIDA_12345-fix''"]
  show ?thesis using l v by simp
qed

section \<open>The build pipeline (\<open>build_versions.py\<close>)\<close>

subsection \<open>Semantic versions: \<open>semver.compare\<close>\<close>

text \<open>
  Modelled from the spec: \<open>semver.compare\<close> belongs to the third-party package \<open>semver\<close>,
  which is not part of the repository. The spec calls its order the standard semver total
  order (major, minor, patch compared as numbers); the model follows that standard:
  \<open>major.minor.patch\<close> without leading zeros, an optional \<open>-prerelease\<close> of dot-separated
  identifiers and an optional \<open>+build\<close> that the comparison ignores. A version without a
  prerelease is greater than the same version with one; prerelease identifiers are
  compared from the left, numbers as numbers and below any text, text by code points, and
  a proper prefix is smaller. A string that is no semantic version makes the parser raise
  \<open>ValueError\<close>.
\<close>

datatype ident = Num nat | Alnum string

record version =
  major :: nat
  minor :: nat
  patch :: nat
  prerelease :: "ident list"

definition is_letter :: "char \<Rightarrow> bool" where
  "is_letter c = (c \<in> set ''abcdefghijklmnopqrstuvwxyzABCDEFGHIJKLMNOPQRSTUVWXYZ'')"

definition is_ident_char :: "char \<Rightarrow> bool" where
  "is_ident_char c = (is_digit c \<or> is_letter c \<or> c = CHR ''-'')"

definition digit_val :: "char \<Rightarrow> nat" where
  "digit_val c = of_char c - 48"

definition nat_of_digits :: "string \<Rightarrow> nat" where
  "nat_of_digits s = foldl (\<lambda>n c. 10 * n + digit_val c) 0 s"

text \<open>\<open>str.split(sep)\<close> for a one-character separator: always at least one part.\<close>

fun split_on :: "char \<Rightarrow> string \<Rightarrow> string list" where
  "split_on sep [] = [[]]"
| "split_on sep (c # cs) =
     (if c = sep then [] # split_on sep cs
      else (case split_on sep cs of [] \<Rightarrow> [[c]] | p # ps \<Rightarrow> (c # p) # ps))"

text \<open>The text before the first \<open>sep\<close>, and the text after it when there is one.\<close>

definition cut :: "char \<Rightarrow> string \<Rightarrow> string \<times> string option" where
  "cut sep s =
     (case dropWhile (\<lambda>c. c \<noteq> sep) s of
        [] \<Rightarrow> (s, None)
      | _ # after \<Rightarrow> (takeWhile (\<lambda>c. c \<noteq> sep) s, Some after))"

text \<open>A numeric identifier: digits, no leading zero.\<close>

definition numeric :: "string \<Rightarrow> nat option" where
  "numeric s =
     (case s of
        [] \<Rightarrow> None
      | c # cs \<Rightarrow> if list_all is_digit s \<and> (c \<noteq> CHR ''0'' \<or> cs = [])
                 then Some (nat_of_digits s) else None)"

definition pre_ident :: "string \<Rightarrow> ident option" where
  "pre_ident s =
     (if list_all is_digit s then map_option Num (numeric s)
      else if list_all is_ident_char s then Some (Alnum s) else None)"

definition build_ok :: "string \<Rightarrow> bool" where
  "build_ok b = list_all (\<lambda>p. p \<noteq> [] \<and> list_all is_ident_char p) (split_on CHR ''.'' b)"

definition parse :: "string \<Rightarrow> version option" where
  "parse s =
     (let (rest, build) = cut CHR ''+'' s;
          (core, pre) = cut CHR ''-'' rest;
          ids = (case pre of None \<Rightarrow> [] | Some p \<Rightarrow> map pre_ident (split_on CHR ''.'' p))
      in if (case build of None \<Rightarrow> False | Some b \<Rightarrow> \<not> build_ok b) \<or> None \<in> set ids then None
         else (case map numeric (split_on CHR ''.'' core) of
                 [Some a, Some b, Some c] \<Rightarrow>
                   Some \<lparr>major = a, minor = b, patch = c, prerelease = map the ids\<rparr>
               | _ \<Rightarrow> None))"

text \<open>
  The precedence of a version as a key in a lexicographic order: the three numbers, then
  1 for a release and 0 for a prerelease, then the prerelease identifiers, a number
  \<open>n\<close> as \<open>(0, n, [])\<close> and a text \<open>t\<close> as \<open>(1, 0, t)\<close>.
\<close>

type_synonym version_key = "nat \<times> nat \<times> nat \<times> nat \<times> (nat \<times> nat \<times> string) list"

fun ident_key :: "ident \<Rightarrow> nat \<times> nat \<times> string" where
  "ident_key (Num n) = (0, n, [])"
| "ident_key (Alnum t) = (1, 0, t)"

definition key_of_version :: "version \<Rightarrow> version_key" where
  "key_of_version v =
     (major v, minor v, patch v, (if prerelease v = [] then 1 else 0), map ident_key (prerelease v))"

text \<open>Python 2's \<open>cmp\<close>, which the package defines as \<open>(a > b) - (a < b)\<close>.\<close>

definition cmp :: "'a::linorder \<Rightarrow> 'a \<Rightarrow> int" where
  "cmp a b = (if a < b then - 1 else if b < a then 1 else 0)"

definition semver_compare :: "string \<Rightarrow> string \<Rightarrow> py_error + int" where
  "semver_compare ver1 ver2 =
     (case (parse ver1, parse ver2) of
        (Some v1, Some v2) \<Rightarrow> Inr (cmp (key_of_version v1) (key_of_version v2))
      | _ \<Rightarrow> Inl ValueError)"

subsection \<open>\<open>sorted\<close> with \<open>key=cmp_to_key(semver.compare)\<close>\<close>

text \<open>
  \<open>sorted\<close> is a stable sort that compares keys with \<open><\<close> only. Whenever \<open><\<close> orders the
  keys like a linear order on some measure of them, the result of a stable sort is
  determined, and the stable insertion sort below computes it. With \<open>reverse=True\<close>
  Python reverses the list, sorts it and reverses the result, so that equal elements keep
  their original order there too.
\<close>

fun insort_lt :: "('a \<Rightarrow> 'a \<Rightarrow> bool) \<Rightarrow> 'a \<Rightarrow> 'a list \<Rightarrow> 'a list" where
  "insort_lt lt x [] = [x]"
| "insort_lt lt x (y # ys) = (if lt y x then y # insort_lt lt x ys else x # y # ys)"

definition sort_lt :: "('a \<Rightarrow> 'a \<Rightarrow> bool) \<Rightarrow> 'a list \<Rightarrow> 'a list" where
  "sort_lt lt xs = foldr (insort_lt lt) xs []"

definition py_sorted :: "('a \<Rightarrow> 'a \<Rightarrow> bool) \<Rightarrow> bool \<Rightarrow> 'a list \<Rightarrow> 'a list" where
  "py_sorted lt reverse xs = (if reverse then rev (sort_lt lt (rev xs)) else sort_lt lt xs)"

text \<open>
  \<open>cmp_to_key(semver.compare)\<close> wraps each element; \<open>a < b\<close> on the wrappers is
  \<open>semver.compare(a, b) < 0\<close>.
\<close>

definition semver_lt :: "string \<Rightarrow> string \<Rightarrow> bool" where
  "semver_lt a b = (case semver_compare a b of Inr c \<Rightarrow> c < 0 | Inl _ \<Rightarrow> False)"

text \<open>
  \<open>sorted(xs, key=lambda v: by_semver_key(f(v)), reverse=...)\<close>. A list of fewer than two
  elements is returned without a comparison. In a longer list every element is compared
  at least once, and \<open>semver.compare\<close> parses both arguments first, so an element that is
  no semantic version raises \<open>ValueError\<close>.
\<close>

definition sorted_by_semver :: "('a \<Rightarrow> string) \<Rightarrow> bool \<Rightarrow> 'a list \<Rightarrow> py_error + 'a list" where
  "sorted_by_semver f reverse xs =
     (if 2 \<le> length xs \<and> list_ex (\<lambda>x. parse (f x) = None) xs then Inl ValueError
      else Inr (py_sorted (\<lambda>a b. semver_lt (f a) (f b)) reverse xs))"

subsection \<open>\<open>_latest_patch\<close>\<close>

text \<open>
  A compiled pattern is modelled by what the code reads of it: whether
  \<open>patch_pattern.match(tag)\<close> is a match. The tags that pass the filter of the first line:
\<close>

definition surviving_tags :: "string list \<Rightarrow> string \<Rightarrow> (string \<Rightarrow> bool) \<Rightarrow> string \<Rightarrow> string list" where
  "surviving_tags tags ver patch_pattern distro =
     filter (\<lambda>tag. prefix ver tag \<and> suffix (''-'' @ distro) tag \<and> patch_pattern tag) tags"

definition latest_patch ::
  "string list \<Rightarrow> string \<Rightarrow> (string \<Rightarrow> bool) \<Rightarrow> string \<Rightarrow> py_error + string" where
  "latest_patch tags ver patch_pattern distro =
     (let tags' = surviving_tags tags ver patch_pattern distro
      in if tags' \<noteq> [] then
           (case sorted_by_semver id True tags' of
              Inl e \<Rightarrow> Inl e
            | Inr [] \<Rightarrow> Inl ValueError
            | Inr (t # _) \<Rightarrow> Inr t)
         else Inr [])"

text \<open>
  The patterns the pipeline compiles: \<open>^(\d+\.\d+\.\d+-DISTRO)$\<close> for each distro, joined
  with \<open>|\<close>. \<open>$\<close> also matches before a final newline. The distro is spliced into the pattern as
  it is; the model reads it literally, which is what the pattern does for the names
  of \<open>DISTROS\<close>. With no distro at all the pattern is empty and matches every tag.
\<close>

definition digits_then :: "char \<Rightarrow> string \<Rightarrow> string option" where
  "digits_then c s =
     (case (takeWhile is_digit s, dropWhile is_digit s) of
        (d # ds, c' # r) \<Rightarrow> if c' = c then Some r else None
      | _ \<Rightarrow> None)"

definition match_patch_re :: "string \<Rightarrow> string \<Rightarrow> bool" where
  "match_patch_re distro tag =
     (case digits_then CHR ''.'' tag of None \<Rightarrow> False | Some r1 \<Rightarrow>
      case digits_then CHR ''.'' r1 of None \<Rightarrow> False | Some r2 \<Rightarrow>
      case digits_then CHR ''-'' r2 of None \<Rightarrow> False | Some r3 \<Rightarrow>
      r3 = distro \<or> r3 = distro @ [CHR 0x0A])"

definition wanted_tag_pattern :: "string list \<Rightarrow> string \<Rightarrow> bool" where
  "wanted_tag_pattern distros tag = (distros = [] \<or> list_ex (\<lambda>d. match_patch_re d tag) distros)"

text \<open>
  The precedence of a string that is a semantic version; the value given to other strings
  is never compared.
\<close>

definition precedence :: "string \<Rightarrow> version_key" where
  "precedence s = (case parse s of Some v \<Rightarrow> key_of_version v | None \<Rightarrow> (0, 0, 0, 0, []))"

subsection \<open>\<open>version_combinations\<close>\<close>

definition DEFAULT_DISTRO :: string where
  "DEFAULT_DISTRO = ''buster''"

definition DISTROS :: "string list" where
  "DISTROS = [''buster'', ''bullseye'', ''slim'', ''alpine'']"

text \<open>
  The dictionaries of \<open>decide_python_versions\<close> and \<open>decide_nodejs_versions\<close> (fields
  \<open>canonical_version\<close>, \<open>image\<close>, \<open>key\<close>, \<open>distro\<close>; the prefixes keep the two apart) and the
  dictionary \<open>version_combinations\<close> builds from a pair of them.
\<close>

record python_version =
  p_canonical_version :: string
  p_image :: string
  p_key :: string
  p_distro :: string

record nodejs_version =
  n_canonical_version :: string
  n_key :: string

record combination =
  key :: string
  python :: string
  python_canonical :: string
  python_image :: string
  nodejs :: string
  nodejs_canonical :: string
  distro :: string

text \<open>The body of the two nested loops for one pair.\<close>

definition combination_of :: "python_version \<Rightarrow> nodejs_version \<Rightarrow> combination" where
  "combination_of p n =
     (let distro_suffix = (if p_distro p \<noteq> DEFAULT_DISTRO then ''-'' @ p_distro p else [])
      in \<lparr>key = ''python'' @ p_key p @ ''-nodejs'' @ n_key n @ distro_suffix,
          python = p_key p,
          python_canonical = p_canonical_version p,
          python_image = p_image p,
          nodejs = n_key n,
          nodejs_canonical = n_canonical_version n,
          distro = p_distro p\<rparr>)"

text \<open>The loops: Python versions outside, Node.js versions inside.\<close>

definition all_combinations :: "nodejs_version list \<Rightarrow> python_version list \<Rightarrow> combination list" where
  "all_combinations nodejs_versions python_versions =
     concat (map (\<lambda>p. map (\<lambda>n. combination_of p n) nodejs_versions) python_versions)"

text \<open>\<open>list.index\<close>: the first position of the element; \<open>None\<close> stands for its \<open>ValueError\<close>.\<close>

fun index_of :: "'a list \<Rightarrow> 'a \<Rightarrow> nat option" where
  "index_of [] x = None"
| "index_of (y # ys) x = (if y = x then Some 0 else map_option Suc (index_of ys x))"

definition distro_position :: "combination \<Rightarrow> nat" where
  "distro_position v = (case index_of DISTROS (distro v) of Some i \<Rightarrow> i | None \<Rightarrow> 0)"

text \<open>
  \<open>sorted(versions, key=lambda v: DISTROS.index(v["distro"]))\<close>: the key is computed for every
  element before anything is compared, so a distro outside \<open>DISTROS\<close> raises.
\<close>

definition sorted_by_distro :: "combination list \<Rightarrow> py_error + combination list" where
  "sorted_by_distro versions =
     (if list_ex (\<lambda>v. index_of DISTROS (distro v) = None) versions then Inl ValueError
      else Inr (py_sorted (\<lambda>a b. distro_position a < distro_position b) False versions))"

definition version_combinations ::
  "nodejs_version list \<Rightarrow> python_version list \<Rightarrow> py_error + combination list" where
  "version_combinations nodejs_versions python_versions =
     (case sorted_by_distro (all_combinations nodejs_versions python_versions) of
        Inl e \<Rightarrow> Inl e
      | Inr versions1 \<Rightarrow>
         (case sorted_by_semver nodejs_canonical True versions1 of
            Inl e \<Rightarrow> Inl e
          | Inr versions2 \<Rightarrow> sorted_by_semver python_canonical True versions2))"



subsection \<open>Change detection in \<open>build_new_or_updated\<close>\<close>

text \<open>
  A dictionary that is iterated is an association list in insertion order: storing under
  a key that is there replaces the value in place, storing under a new key appends.
\<close>

fun dict_put :: "('k \<times> 'v) list \<Rightarrow> 'k \<Rightarrow> 'v \<Rightarrow> ('k \<times> 'v) list" where
  "dict_put [] k v = [(k, v)]"
| "dict_put ((k', v') # kvs) k v =
     (if k' = k then (k, v) # kvs else (k', v') # dict_put kvs k v)"

text \<open>\<open>{ver["key"]: ver for ver in versions}\<close>\<close>

definition index_by_key :: "combination list \<Rightarrow> (string \<times> combination) list" where
  "index_by_key versions = foldl (\<lambda>d ver. dict_put d (key ver) ver) [] versions"

text \<open>The first loop of \<open>build_new_or_updated\<close>.\<close>

definition new_or_updated :: "combination list \<Rightarrow> combination list \<Rightarrow> bool \<Rightarrow> combination list" where
  "new_or_updated current_versions versions force =
     (let current = map_of (index_by_key current_versions)
      in map snd
           (filter (\<lambda>(k, ver).
                      let updated = (current k \<noteq> None \<and> Some ver \<noteq> current k);
                          new = (current k = None)
                      in new \<or> updated \<or> force)
              (index_by_key versions)))"

text \<open>The example of the spec: one entry whose Python patch version moved, one that did not change.\<close>

definition example_old :: combination where
  "example_old = \<lparr>key = ''python3.9-nodejs18'', python = ''3.9'', python_canonical = ''3.9.1'',
     python_image = ''3.9.1-buster'', nodejs = ''18'', nodejs_canonical = ''18.1.0'', distro = ''buster''\<rparr>"

definition example_new :: combination where
  "example_new = example_old\<lparr>python_canonical := ''3.9.2'', python_image := ''3.9.2-buster''\<rparr>"

definition example_same :: combination where
  "example_same = \<lparr>key = ''python3.9-nodejs18-slim'', python = ''3.9'', python_canonical = ''3.9.2'',
     python_image = ''3.9.2-slim'', nodejs = ''18'', nodejs_canonical = ''18.1.0'', distro = ''slim''\<rparr>"

text \<open>The last part of a key, as a function of the distro.\<close>

definition suffix_of_distro :: "string \<Rightarrow> string" where
  "suffix_of_distro d = (if d \<noteq> DEFAULT_DISTRO then ''-'' @ d else [])"



text \<open>Resolved versions for examples: Python 3.9 and 3.10 on two distros, Node.js 16 and 18.\<close>

definition example_pythons :: "python_version list" where
  "example_pythons =
     [\<lparr>p_canonical_version = ''3.10.0'', p_image = ''3.10.0-slim'', p_key = ''3.10'', p_distro = ''slim''\<rparr>,
      \<lparr>p_canonical_version = ''3.10.0'', p_image = ''3.10.0-buster'', p_key = ''3.10'', p_distro = ''buster''\<rparr>,
      \<lparr>p_canonical_version = ''3.9.2'', p_image = ''3.9.2-slim'', p_key = ''3.9'', p_distro = ''slim''\<rparr>,
      \<lparr>p_canonical_version = ''3.9.2'', p_image = ''3.9.2-buster'', p_key = ''3.9'', p_distro = ''buster''\<rparr>]"

definition example_nodes :: "nodejs_version list" where
  "example_nodes =
     [\<lparr>n_canonical_version = ''18.1.0'', n_key = ''18''\<rparr>,
      \<lparr>n_canonical_version = ''16.15.0'', n_key = ''16''\<rparr>]"






subsection \<open>\<open>update_readme_tags_table\<close>\<close>

definition nl :: char where
  "nl = CHR 0x0A"

definition backslash :: char where
  "backslash = CHR 0x5C"

definition cr :: char where
  "cr = CHR 0x0D"

text \<open>
  What \<open>fp.read()\<close> gives for a file opened in text mode: every line ending of the file,
  be it a carriage return and a line feed, a carriage return alone or a line feed, is read
  as one line feed. Writing in text mode puts the text into the file as it is, where the
  line separator of the system is the line feed, as on the machines that run the
  pipeline.
\<close>

fun read_text :: "string \<Rightarrow> string" where
  "read_text [] = []"
| "read_text [c] = [if c = cr then nl else c]"
| "read_text (a # b # r) =
     (if a = cr \<and> b = nl then nl # read_text r
      else if a = cr then nl # read_text (b # r)
      else a # read_text (b # r))"

text \<open>\<open>sep.join(parts)\<close>\<close>

fun join :: "string \<Rightarrow> string list \<Rightarrow> string" where
  "join sep [] = []"
| "join sep [x] = x"
| "join sep (x # y # ys) = x @ sep @ join sep (y # ys)"

definition headings :: "string list" where
  "headings = [''Tag'', ''Python version'', ''Node.js version'', ''Distro'']"

definition table_row :: "combination \<Rightarrow> string list" where
  "table_row v = [''`'' @ key v @ ''`'', python_canonical v, nodejs_canonical v, distro v]"

definition tags_table :: "combination list \<Rightarrow> string" where
  "tags_table versions =
     (let rows = map table_row versions;
          head = join '' | '' headings @ [nl] @ join '' | '' (map (\<lambda>h. ''---'') headings);
          body = join [nl] (map (join '' | '') rows)
      in head @ [nl] @ body @ [nl])"

text \<open>
  The two sentinels. In the pattern \<open>f"{start}(.+?){end}"\<close> the full stop of \<open>start\<close> is a
  wildcard (with \<open>re.DOTALL\<close> it matches any character); every other character of the two
  sentinels stands for itself.
\<close>

definition start_words :: string where
  "start_words = ''the following table of available image tags''"

definition start_marker :: string where
  "start_marker = start_words @ [CHR ''.'', nl]"

definition end_marker :: string where
  "end_marker = nl # ''Lovely!''"

text \<open>The \<open>start\<close> part of the pattern matches at the beginning of \<open>s\<close>.\<close>

definition start_matches :: "string \<Rightarrow> bool" where
  "start_matches s \<longleftrightarrow>
     prefix start_words s \<and>
     (case drop (length start_words) s of _ # c # _ \<Rightarrow> c = nl | _ \<Rightarrow> False)"

text \<open>The text before the first \<open>end\<close> sentinel and the text after it.\<close>

fun find_end :: "string \<Rightarrow> (string \<times> string) option" where
  "find_end [] = None"
| "find_end (c # cs) =
     (if prefix end_marker (c # cs) then Some ([], drop (length end_marker) (c # cs))
      else map_option (\<lambda>(a, b). (c # a, b)) (find_end cs))"

text \<open>
  The whole pattern at the beginning of \<open>s\<close>: \<open>start\<close>, then the shortest text of at least
  one character that is followed by \<open>end\<close>, then \<open>end\<close>. The result is group 1 and the text
  after the match.
\<close>

definition match_here :: "string \<Rightarrow> (string \<times> string) option" where
  "match_here s =
     (if start_matches s then
        (case drop (length start_marker) s of
           [] \<Rightarrow> None
         | c # r \<Rightarrow> map_option (\<lambda>(a, b). (c # a, b)) (find_end r))
      else None)"

text \<open>
  The replacement of \<open>re.sub\<close> is a template: a backslash starts an escape. The template
  is parsed once, before the search: \<open>\g<0>\<close>, \<open>\g<1>\<close> and \<open>\1\<close> refer to the match and to
  group 1, \<open>\0\<close> and three octal digits give a character, the letters \<open>abfnrtv\<close> and a
  backslash after the backslash give control characters and the backslash, any other
  ASCII letter or digit and an unknown group are errors, and any other character stays with
  its backslash.
\<close>

datatype piece = Lit char | Group nat

definition is_octal :: "char \<Rightarrow> bool" where
  "is_octal c = (c \<in> set ''01234567'')"

definition octal_val :: "string \<Rightarrow> nat" where
  "octal_val s = foldl (\<lambda>n c. 8 * n + digit_val c) 0 s"

definition is_identifier :: "string \<Rightarrow> bool" where
  "is_identifier s =
     (case s of [] \<Rightarrow> False
      | c # cs \<Rightarrow> (is_letter c \<or> c = CHR ''_'')
                 \<and> list_all (\<lambda>d. is_letter d \<or> is_digit d \<or> d = CHR ''_'') cs)"

text \<open>
  The escape after a backslash: the pieces it stands for and the number of characters it
  takes after the backslash. The pattern has one group.
\<close>

definition escape :: "string \<Rightarrow> py_error + (piece list \<times> nat)" where
  "escape s =
     (case s of
        [] \<Rightarrow> Inl ReError
      | c # r \<Rightarrow>
          if c = CHR ''g'' then
            (case r of
               [] \<Rightarrow> Inl ReError
             | b # r' \<Rightarrow>
                 if b \<noteq> CHR ''<'' then Inl ReError
                 else (let name = takeWhile (\<lambda>x. x \<noteq> CHR ''>'') r'
                       in if length name = length r' \<or> name = [] then Inl ReError
                          else if is_identifier name then Inl IndexError
                          else if list_all is_digit name then
                            (if nat_of_digits name \<le> 1
                             then Inr ([Group (nat_of_digits name)], length name + 3)
                             else Inl ReError)
                          else Inl ReError))
          else if c = CHR ''0'' then
            (let ds = takeWhile is_octal (take 2 r)
             in Inr ([Lit (char_of (octal_val ds))], length ds + 1))
          else if is_digit c then
            (case r of
               d # r' \<Rightarrow>
                 if is_digit d then
                   (if is_octal c \<and> is_octal d \<and> (case r' of e # _ \<Rightarrow> is_octal e | [] \<Rightarrow> False)
                    then (if octal_val (c # d # take 1 r') \<le> 255
                          then Inr ([Lit (char_of (octal_val (c # d # take 1 r')))], 3)
                          else Inl ReError)
                    else Inl ReError)
                 else if c = CHR ''1'' then Inr ([Group 1], 1) else Inl ReError
             | [] \<Rightarrow> if c = CHR ''1'' then Inr ([Group 1], 1) else Inl ReError)
          else if c = CHR ''a'' then Inr ([Lit (CHR 0x07)], 1)
          else if c = CHR ''b'' then Inr ([Lit (CHR 0x08)], 1)
          else if c = CHR ''f'' then Inr ([Lit (CHR 0x0C)], 1)
          else if c = CHR ''n'' then Inr ([Lit (CHR 0x0A)], 1)
          else if c = CHR ''r'' then Inr ([Lit (CHR 0x0D)], 1)
          else if c = CHR ''t'' then Inr ([Lit (CHR 0x09)], 1)
          else if c = CHR ''v'' then Inr ([Lit (CHR 0x0B)], 1)
          else if c = backslash then Inr ([Lit backslash], 1)
          else if is_letter c then Inl ReError
          else Inr ([Lit backslash, Lit c], 1))"

function parse_template :: "string \<Rightarrow> py_error + piece list" where
  "parse_template [] = Inr []"
| "parse_template (c # cs) =
     (if c \<noteq> backslash then
        (case parse_template cs of Inl e \<Rightarrow> Inl e | Inr ps \<Rightarrow> Inr (Lit c # ps))
      else
        (case escape cs of
           Inl e \<Rightarrow> Inl e
         | Inr (pc, n) \<Rightarrow>
             (case parse_template (drop n cs) of Inl e \<Rightarrow> Inl e | Inr ps \<Rightarrow> Inr (pc @ ps))))"
  by pat_completeness auto
termination
  by (relation "measure length") auto

text \<open>The replacement text for one match.\<close>

fun expand :: "piece list \<Rightarrow> string \<Rightarrow> string \<Rightarrow> string" where
  "expand [] whole group1 = []"
| "expand (Lit c # ps) whole group1 = c # expand ps whole group1"
| "expand (Group n # ps) whole group1 = (if n = 0 then whole else group1) @ expand ps whole group1"

lemma find_end_shorter: "find_end r = Some (a, b) \<Longrightarrow> length b < length r"
proof (induction r arbitrary: a)
  case Nil
  then show ?case by simp
next
  case (Cons c cs)
  then show ?case by (auto simp: end_marker_def split: if_splits)
qed

lemma match_here_shorter: "match_here s = Some (g, rest) \<Longrightarrow> length rest < length s"
proof -
  assume m: "match_here s = Some (g, rest)"
  then obtain c r a where d: "drop (length start_marker) s = c # r" and f: "find_end r = Some (a, rest)"
    by (auto simp: match_here_def split: if_splits list.splits)
  from find_end_shorter [OF f] have "length rest < length (drop (length start_marker) s)"
    using d by simp
  then show ?thesis by simp
qed

text \<open>\<open>pattern.sub(repl, text)\<close>: every match, from the left, none overlapping another.\<close>

function re_sub :: "piece list \<Rightarrow> string \<Rightarrow> string" where
  "re_sub pieces [] = []"
| "re_sub pieces (c # cs) =
     (case match_here (c # cs) of
        None \<Rightarrow> c # re_sub pieces cs
      | Some (g, rest) \<Rightarrow>
          expand pieces (take (length (c # cs) - length rest) (c # cs)) g @ re_sub pieces rest)"
  by pat_completeness auto
termination
  by (relation "measure (\<lambda>(pieces, s). length s)") (auto dest: match_here_shorter)

text \<open>The new text of the README, or the error of a replacement that is no template.\<close>

definition readme_new_text :: "combination list \<Rightarrow> string \<Rightarrow> py_error + string" where
  "readme_new_text versions readme =
     (case parse_template (start_marker @ [nl] @ tags_table versions @ end_marker) of
        Inl e \<Rightarrow> Inl e
      | Inr pieces \<Rightarrow> Inr (re_sub pieces readme))"

text \<open>
  \<open>update_readme_tags_table\<close> on the content of the file \<open>README.md\<close> (\<open>None\<close>: the file
  cannot be opened): the content of the file afterwards. The file is read in text mode;
  it is written, with the new text, only when that differs from the text read and the run
  is no dry run, and it stays as it is otherwise.
\<close>

definition update_readme_tags_table ::
  "combination list \<Rightarrow> bool \<Rightarrow> string option \<Rightarrow> py_error + string option" where
  "update_readme_tags_table versions dry_run readme_file =
     (case readme_file of
        None \<Rightarrow> Inl OSError
      | Some content \<Rightarrow>
          (let readme = read_text content
           in case readme_new_text versions readme of
                Inl e \<Rightarrow> Inl e
              | Inr readme_new \<Rightarrow>
                  Inr (if readme \<noteq> readme_new \<and> \<not> dry_run then Some readme_new
                       else Some content)))"

text \<open>The file \<open>README.md\<close> after a number of runs of the update with the same version data.\<close>

fun readme_after :: "nat \<Rightarrow> combination list \<Rightarrow> string option \<Rightarrow> py_error + string option" where
  "readme_after 0 versions readme_file = Inr readme_file"
| "readme_after (Suc n) versions readme_file =
     (case update_readme_tags_table versions False readme_file of
        Inl e \<Rightarrow> Inl e
      | Inr written \<Rightarrow> readme_after n versions written)"


text \<open>
  Texts of version data as the pipeline produces them: no line feed, no carriage return
  and no backslash.
\<close>

definition plain_text :: "string \<Rightarrow> bool" where
  "plain_text s \<longleftrightarrow> nl \<notin> set s \<and> cr \<notin> set s \<and> backslash \<notin> set s"

definition plain_fields :: "combination \<Rightarrow> bool" where
  "plain_fields v \<longleftrightarrow> plain_text (key v) \<and> plain_text (python_canonical v)
     \<and> plain_text (nodejs_canonical v) \<and> plain_text (distro v)"

text \<open>No line break of the text is followed by the letter that begins \<open>Lovely!\<close>.\<close>

fun no_break_L :: "string \<Rightarrow> bool" where
  "no_break_L [] = True"
| "no_break_L [c] = True"
| "no_break_L (a # b # r) = (\<not> (a = nl \<and> b = CHR ''L'') \<and> no_break_L (b # r))"


text \<open>The replacement text of \<open>update_readme_tags_table\<close>.\<close>

definition replacement :: "combination list \<Rightarrow> string" where
  "replacement versions = start_marker @ [nl] @ tags_table versions @ end_marker"

text \<open>A README for examples: a sentence, the table region, a closing line.\<close>

definition example_readme :: string where
  "example_readme = ''# Tags'' @ [nl] @ ''Use the following table of available image tags.''
     @ [nl] @ ''(old table)'' @ [nl] @ ''Lovely!'' @ [nl] @ ''The end.''"

text \<open>The same README in a file whose lines end with a carriage return and a line feed.\<close>

definition example_readme_crlf :: string where
  "example_readme_crlf = ''# Tags'' @ [cr, nl] @ ''Use the following table of available image tags.''
     @ [cr, nl] @ ''(old table)'' @ [cr, nl] @ ''Lovely!'' @ [cr, nl] @ ''The end.''"

text \<open>A combination whose distro holds a carriage return and the closing word of the region.\<close>

definition example_crafted :: combination where
  "example_crafted = example_new\<lparr>distro := ''x'' @ [cr] @ ''Lovely!''\<rparr>"

subsection \<open>The run: deciding the versions\<close>

definition DOCKER_IMAGE_NAME :: string where
  "DOCKER_IMAGE_NAME = ''nikolaik/python-nodejs''"

text \<open>
  What a run changes: the content of \<open>versions.json\<close> and of \<open>README.md\<close> (\<open>None\<close>: the
  file cannot be read), the lines printed, the calls made to the Docker client, in order,
  and the names of the debug files written.
\<close>

datatype line =
    NotGood string string
  | NoNewOrUpdated
  | CouldNotLogin "string option"
  | IsEnvVarSet
  | Building string string string
  | Pushing

datatype docker_call =
    Login "string option"
  | Build string string
  | Push string string

record machine =
  versions_json :: "combination list option"
  readme_md :: "string option"
  console :: "line list"
  docker_calls :: "docker_call list"
  debug_files :: "string list"

definition say :: "line \<Rightarrow> machine \<Rightarrow> machine" where
  "say l m = m\<lparr>console := console m @ [l]\<rparr>"

definition call :: "docker_call \<Rightarrow> machine \<Rightarrow> machine" where
  "call c m = m\<lparr>docker_calls := docker_calls m @ [c]\<rparr>"

text \<open>An entry of a release schedule: \<open>{"version": ..., "start": ..., "end": ...}\<close>.\<close>

record release =
  r_version :: string
  r_start :: string
  r_end :: string

text \<open>
  What a run reads from outside and cannot influence: the tags \<open>_fetch_tags\<close> gets for a
  package, the schedules \<open>scrape_supported_python_versions\<close> and
  \<open>fetch_supported_nodejs_versions\<close> get (each of the three can raise), the date of the
  day, the order in which \<open>list(set(distros))\<close> gives the distros, the user name in the
  environment, whether the login, a build (by tag) or a push (by tag) raises, the signing
  keys fetched, the template files by distro, and the clock.
\<close>

record environment =
  fetch_tags :: "string \<Rightarrow> py_error + string list"
  python_releases :: "py_error + release list"
  nodejs_releases :: "py_error + release list"
  todays_date :: string
  set_order :: "string list \<Rightarrow> string list"
  dockerhub_username :: "string option"
  login_raises :: bool
  node_gpg_keys :: "py_error + string"
  template_text :: "string \<Rightarrow> string option"
  utc_now :: string
  build_raises :: "string \<Rightarrow> bool"
  push_raises :: "string \<Rightarrow> bool"

text \<open>\<open>s.replace(old, new)\<close> for a text \<open>old\<close> that is not empty: every occurrence, from the left.\<close>

function str_replace :: "string \<Rightarrow> string \<Rightarrow> string \<Rightarrow> string" where
  "str_replace [] old new = []"
| "str_replace (c # cs) old new =
     (if old \<noteq> [] \<and> prefix old (c # cs)
      then new @ str_replace (drop (length old) (c # cs)) old new
      else c # str_replace cs old new)"
  by pat_completeness auto
termination
  by (relation "measure (\<lambda>(s, old, new). length s)") auto

text \<open>
  The loops of \<open>decide_python_versions\<close> and \<open>decide_nodejs_versions\<close> over the pairs of a
  version and a distro, in the order of the loops: the entries made (by \<open>entry\<close>, from
  canonical version, image, version and distro) and the lines printed. An exception of
  \<open>_latest_patch\<close> ends the loop; the lines printed before it stay printed.
\<close>

fun latest_patches ::
  "(string \<Rightarrow> string \<Rightarrow> string \<Rightarrow> string \<Rightarrow> 'v) \<Rightarrow> string list \<Rightarrow> (string \<Rightarrow> bool)
     \<Rightarrow> (string \<times> string) list \<Rightarrow> (py_error + 'v list) \<times> line list" where
  "latest_patches entry tags pat [] = (Inr [], [])"
| "latest_patches entry tags pat ((ver, d) # rest) =
     (case latest_patch tags ver pat d of
        Inl e \<Rightarrow> (Inl e, [])
      | Inr canonical_image \<Rightarrow>
          (let (versions, out) = latest_patches entry tags pat rest
           in if canonical_image = [] then (versions, NotGood ver d # out)
              else (let canonical_version = str_replace canonical_image (''-'' @ d) []
                    in (case versions of
                          Inl e \<Rightarrow> Inl e
                        | Inr vs \<Rightarrow> Inr (entry canonical_version canonical_image ver d # vs),
                        out))))"

definition supported :: "string \<Rightarrow> release list \<Rightarrow> release list" where
  "supported today releases = filter (\<lambda>v. r_start v \<le> today \<and> today \<le> r_end v) releases"

definition decide_python_versions ::
  "environment \<Rightarrow> string list \<Rightarrow> (py_error + python_version list) \<times> line list" where
  "decide_python_versions env distros =
     (let python_wanted_tag_pattern = wanted_tag_pattern distros
      in case fetch_tags env ''python'' of
           Inl e \<Rightarrow> (Inl e, [])
         | Inr all_tags \<Rightarrow>
        (case python_releases env of
           Inl e \<Rightarrow> (Inl e, [])
         | Inr releases \<Rightarrow>
             (let tags = filter python_wanted_tag_pattern all_tags;
                  supported_versions = supported (todays_date env) releases;
                  (versions, out) =
                     latest_patches
                       (\<lambda>canonical_version canonical_image ver d.
                          \<lparr>p_canonical_version = canonical_version, p_image = canonical_image,
                           p_key = ver, p_distro = d\<rparr>)
                       tags python_wanted_tag_pattern
                       (concat (map (\<lambda>sv. map (\<lambda>d. (r_version sv, d)) distros) supported_versions))
              in (case versions of
                    Inl e \<Rightarrow> Inl e
                  | Inr vs \<Rightarrow> sorted_by_semver p_canonical_version True vs,
                  out))))"

definition decide_nodejs_versions ::
  "environment \<Rightarrow> (py_error + nodejs_version list) \<times> line list" where
  "decide_nodejs_versions env =
     (let nodejs_wanted_tag_pattern = wanted_tag_pattern [DEFAULT_DISTRO]
      in case fetch_tags env ''node'' of
           Inl e \<Rightarrow> (Inl e, [])
         | Inr all_tags \<Rightarrow>
        (case nodejs_releases env of
           Inl e \<Rightarrow> (Inl e, [])
         | Inr releases \<Rightarrow>
             (let tags = filter nodejs_wanted_tag_pattern all_tags;
                  supported_versions = supported (todays_date env) releases;
                  (versions, out) =
                     latest_patches
                       (\<lambda>canonical_version canonical_image ver d.
                          \<lparr>n_canonical_version = canonical_version, n_key = ver\<rparr>)
                       tags nodejs_wanted_tag_pattern
                       (map (\<lambda>sv. (drop 1 (r_version sv), DEFAULT_DISTRO)) supported_versions)
              in (case versions of
                    Inl e \<Rightarrow> Inl e
                  | Inr vs \<Rightarrow> sorted_by_semver n_canonical_version True vs,
                  out))))"

subsection \<open>The run: \<open>render_dockerfile\<close>\<close>

text \<open>
  \<open>int(s)\<close> for a text: blanks around it are dropped, a sign may lead, and the rest is
  decimal digits, with single underscores allowed between digits. Anything else raises
  \<open>ValueError\<close> (\<open>None\<close>).
\<close>

definition is_space :: "char \<Rightarrow> bool" where
  "is_space c = (c \<in> set [CHR '' '', CHR 0x09, CHR 0x0A, CHR 0x0B, CHR 0x0C, CHR 0x0D,
                            CHR 0x1C, CHR 0x1D, CHR 0x1E, CHR 0x1F, CHR 0x85, CHR 0xA0])"

definition strip :: "string \<Rightarrow> string" where
  "strip s = rev (dropWhile is_space (rev (dropWhile is_space s)))"

definition py_int :: "string \<Rightarrow> int option" where
  "py_int s =
     (let t = strip s;
          (negative, body) = (case t of
                                c # r \<Rightarrow> if c = CHR ''-'' then (True, r)
                                         else if c = CHR ''+'' then (False, r) else (False, t)
                              | [] \<Rightarrow> (False, t));
          groups = split_on CHR ''_'' body
      in if list_all (\<lambda>g. g \<noteq> [] \<and> list_all is_digit g) groups
         then (let n = int (nat_of_digits (concat groups)) in Some (if negative then - n else n))
         else None)"

text \<open>
  The pattern \<open>%%(.+?)%%\<close>: after \<open>%%\<close> the shortest text of at least one character, none of
  them a line break, that is followed by \<open>%%\<close>. \<open>closing\<close> looks for that second \<open>%%\<close>.
\<close>

fun closing :: "string \<Rightarrow> (string \<times> string) option" where
  "closing [] = None"
| "closing (c # cs) =
     (if prefix ''%%'' (c # cs) then Some ([], drop 2 (c # cs))
      else if c = CHR 0x0A then None
      else map_option (\<lambda>(a, b). (c # a, b)) (closing cs))"

definition token_here :: "string \<Rightarrow> (string \<times> string) option" where
  "token_here s =
     (if prefix ''%%'' s then
        (case drop 2 s of
           [] \<Rightarrow> None
         | c # r \<Rightarrow> if c = CHR 0x0A then None
                    else map_option (\<lambda>(a, b). (c # a, b)) (closing r))
      else None)"

lemma closing_shorter: "closing r = Some (a, b) \<Longrightarrow> length b < length r"
proof (induction r arbitrary: a)
  case Nil
  then show ?case by simp
next
  case (Cons c cs)
  then show ?case by (auto split: if_splits)
qed

lemma token_here_shorter: "token_here s = Some (g, rest) \<Longrightarrow> length rest < length s"
proof -
  assume "token_here s = Some (g, rest)"
  then obtain c r a where d: "drop 2 s = c # r" and f: "closing r = Some (a, rest)"
    by (auto simp: token_here_def split: if_splits list.splits)
  from closing_shorter [OF f] have "length rest < length (drop 2 s)" using d by simp
  then show ?thesis by simp
qed

text \<open>
  \<open>replace_pattern.sub(repl, template)\<close> with a function \<open>repl\<close>: what it returns
  replaces the match as it is; what it raises leaves the substitution.
\<close>

function sub_tokens :: "(string \<Rightarrow> py_error + string) \<Rightarrow> string \<Rightarrow> py_error + string" where
  "sub_tokens repl [] = Inr []"
| "sub_tokens repl (c # cs) =
     (case token_here (c # cs) of
        None \<Rightarrow> (case sub_tokens repl cs of Inl e \<Rightarrow> Inl e | Inr t \<Rightarrow> Inr (c # t))
      | Some (g, rest) \<Rightarrow>
          (case repl g of
             Inl e \<Rightarrow> Inl e
           | Inr v \<Rightarrow> (case sub_tokens repl rest of Inl e \<Rightarrow> Inl e | Inr t \<Rightarrow> Inr (v @ t))))"
  by pat_completeness auto
termination
  by (relation "measure (\<lambda>(repl, s). length s)") (auto dest: token_here_shorter)

text \<open>
  \<open>render_dockerfile\<close>. The template of the distro is read first, then the dictionary of
  replacements is built (the fields of the combination come last and would win over an
  equal name), then every token is replaced by the entry under its lowercased name; a name
  without entry raises \<open>KeyError\<close>.
\<close>

definition render_dockerfile :: "environment \<Rightarrow> combination \<Rightarrow> string \<Rightarrow> py_error + string" where
  "render_dockerfile env version keys =
     (case template_text env (distro version) of
        None \<Rightarrow> Inl OSError
      | Some dockerfile_template \<Rightarrow>
          (case py_int (nodejs version) of
             None \<Rightarrow> Inl ValueError
           | Some n \<Rightarrow>
               (let replacements =
                      [(''key'', key version), (''python'', python version),
                       (''python_canonical'', python_canonical version),
                       (''python_image'', python_image version), (''nodejs'', nodejs version),
                       (''nodejs_canonical'', nodejs_canonical version),
                       (''distro'', distro version),
                       (''npm_version'', if n < 15 then ''6'' else ''7''),
                       (''now'', utc_now env),
                       (''node_gpg_keys'', keys)];
                    repl = (\<lambda>g. case map_of replacements (lower g) of
                                   None \<Rightarrow> Inl KeyError | Some v \<Rightarrow> Inr v)
                in sub_tokens repl dockerfile_template)))"

subsection \<open>The run: \<open>build_new_or_updated\<close> and \<open>main\<close>\<close>

text \<open>
  How a call ends: it returns, an exception leaves it, or \<open>exit(n)\<close> ends the process.
  An exception that nothing catches ends the interpreter with status 1.
\<close>

datatype outcome = Returned | Raised py_error | Exited nat

definition exit_status :: "outcome \<Rightarrow> nat" where
  "exit_status r = (case r of Returned \<Rightarrow> 0 | Raised _ \<Rightarrow> 1 | Exited n \<Rightarrow> n)"

text \<open>The loop that renders, builds and pushes, one combination after the other.\<close>

fun build_all ::
  "environment \<Rightarrow> string \<Rightarrow> bool \<Rightarrow> bool \<Rightarrow> combination list \<Rightarrow> machine \<Rightarrow> outcome \<times> machine" where
  "build_all env keys dry_run debug [] m = (Returned, m)"
| "build_all env keys dry_run debug (version # rest) m =
     (case render_dockerfile env version keys of
        Inl e \<Rightarrow> (Raised e, m)
      | Inr dockerfile \<Rightarrow>
          (let tag = DOCKER_IMAGE_NAME @ '':'' @ key version;
               m1 = say (Building (key version) (python_canonical version) (nodejs_canonical version)) m;
               m2 = (if dry_run then m1 else call (Build tag dockerfile) m1)
           in if \<not> dry_run \<and> build_raises env tag then (Raised BuildError, m2)
              else
                (let m3 = (if debug
                           then m2\<lparr>debug_files := debug_files m2 @ [''debug-'' @ key version @ ''.Dockerfile'']\<rparr>
                           else m2);
                     m4 = say Pushing m3;
                     m5 = (if dry_run then m4 else call (Push DOCKER_IMAGE_NAME (key version)) m4)
                 in if \<not> dry_run \<and> push_raises env (key version) then (Raised APIError, m5)
                    else build_all env keys dry_run debug rest m5)))"

definition build_new_or_updated ::
  "environment \<Rightarrow> combination list \<Rightarrow> combination list \<Rightarrow> bool \<Rightarrow> bool \<Rightarrow> bool \<Rightarrow> machine
     \<Rightarrow> outcome \<times> machine" where
  "build_new_or_updated env current_versions versions dry_run debug force m =
     (let todo = new_or_updated current_versions versions force
      in if todo = [] then (Returned, say NoNewOrUpdated m)
         else
           (let m1 = call (Login (dockerhub_username env)) m
            in if login_raises env
               then (Exited 1, say IsEnvVarSet (say (CouldNotLogin (dockerhub_username env)) m1))
               else (case node_gpg_keys env of
                       Inl e \<Rightarrow> (Raised e, m1)
                     | Inr keys \<Rightarrow> build_all env keys dry_run debug todo m1)))"

text \<open>\<open>persist_versions\<close> and \<open>load_versions\<close>\<close>

definition persist_versions :: "combination list \<Rightarrow> bool \<Rightarrow> machine \<Rightarrow> machine" where
  "persist_versions versions dry_run m = (if dry_run then m else m\<lparr>versions_json := Some versions\<rparr>)"

definition load_versions :: "machine \<Rightarrow> py_error + combination list" where
  "load_versions m = (case versions_json m of None \<Rightarrow> Inl OSError | Some versions \<Rightarrow> Inr versions)"

definition says :: "line list \<Rightarrow> machine \<Rightarrow> machine" where
  "says ls m = m\<lparr>console := console m @ ls\<rparr>"

definition main ::
  "environment \<Rightarrow> string list \<Rightarrow> bool \<Rightarrow> bool \<Rightarrow> bool \<Rightarrow> machine \<Rightarrow> outcome \<times> machine" where
  "main env distros dry_run debug force m =
     (let distros' = set_order env distros
      in case load_versions m of
           Inl e \<Rightarrow> (Raised e, m)
         | Inr current_versions \<Rightarrow>
        (let (python_versions, out1) = decide_python_versions env distros';
             m1 = says out1 m
         in case python_versions of
              Inl e \<Rightarrow> (Raised e, m1)
            | Inr python_versions \<Rightarrow>
        (let (nodejs_versions, out2) = decide_nodejs_versions env;
             m2 = says out2 m1
         in case nodejs_versions of
              Inl e \<Rightarrow> (Raised e, m2)
            | Inr nodejs_versions \<Rightarrow>
        (case version_combinations nodejs_versions python_versions of
           Inl e \<Rightarrow> (Raised e, m2)
         | Inr versions \<Rightarrow>
             (let m3 = persist_versions versions dry_run m2
              in case update_readme_tags_table versions dry_run (readme_md m3) of
                   Inl e \<Rightarrow> (Raised e, m3)
                 | Inr readme \<Rightarrow>
                     build_new_or_updated env current_versions versions dry_run debug force
                       (m3\<lparr>readme_md := readme\<rparr>))))))"

text \<open>
  Runs for examples. Of the schedules only Python 3.9 and Node.js 18 are supported on the
  day; the latest patches on buster are 3.9.2 and 18.1.0, which gives the one combination
  \<open>example_new\<close> for the distro buster. The machine holds a state file and the example
  README.
\<close>

definition example_env :: environment where
  "example_env =
     \<lparr>fetch_tags = (\<lambda>package.
         if package = ''python''
         then Inr [''latest'', ''3.9.1-buster'', ''3.9.2-buster'', ''3.9.2-slim'', ''3.10.0-buster'']
         else Inr [''18.0.0-buster'', ''18.1.0-buster'', ''16.15.0-buster'', ''18.1.0-slim'']),
      python_releases = Inr [\<lparr>r_version = ''3.10'', r_start = ''2022-10-04'', r_end = ''2026-10''\<rparr>,
                             \<lparr>r_version = ''3.9'', r_start = ''2020-10-05'', r_end = ''2025-10''\<rparr>,
                             \<lparr>r_version = ''3.5'', r_start = ''2015-09-13'', r_end = ''2020-09-30''\<rparr>],
      nodejs_releases = Inr [\<lparr>r_version = ''v16'', r_start = ''2021-04-20'', r_end = ''2022-03-01''\<rparr>,
                             \<lparr>r_version = ''v18'', r_start = ''2022-04-19'', r_end = ''2025-04-30''\<rparr>],
      todays_date = ''2022-06-01'',
      set_order = remdups,
      dockerhub_username = Some ''user'',
      login_raises = False,
      node_gpg_keys = Inr ''KEY1 KEY2'',
      template_text = (\<lambda>d. if d = ''buster''
                            then Some (''FROM python:%%PYTHON_IMAGE%%'' @ [CHR 0x0A]
                                       @ ''RUN npm install -g npm@%%NPM_VERSION%%'')
                            else None),
      utc_now = ''2022-06-01T12:00:00'',
      build_raises = (\<lambda>tag. False),
      push_raises = (\<lambda>tag. False)\<rparr>"

definition example_machine :: "combination list \<Rightarrow> machine" where
  "example_machine persisted =
     \<lparr>versions_json = Some persisted, readme_md = Some example_readme, console = [],
      docker_calls = [], debug_files = []\<rparr>"

section \<open>Facts about the build pipeline\<close>

subsection \<open>Sorting\<close>

lemma insort_lt_insort_key:
  "(\<forall>y\<in>set ys. lt y x \<longleftrightarrow> k y < k x) \<Longrightarrow> insort_lt lt x ys = insort_key k x ys"
  by (induction ys) (auto simp: not_less)

lemma sort_lt_sort_key:
  "(\<forall>a\<in>set xs. \<forall>b\<in>set xs. lt a b \<longleftrightarrow> k a < k b) \<Longrightarrow> sort_lt lt xs = sort_key k xs"
proof (induction xs)
  case Nil
  then show ?case by (simp add: sort_lt_def)
next
  case (Cons x xs)
  then have ih: "sort_lt lt xs = sort_key k xs" by simp
  have "insort_lt lt x (sort_key k xs) = insort_key k x (sort_key k xs)"
    by (rule insort_lt_insort_key) (use Cons.prems in simp)
  with ih show ?case by (simp add: sort_lt_def)
qed

lemma py_sorted_sort_key:
  assumes "\<forall>a\<in>set xs. \<forall>b\<in>set xs. lt a b \<longleftrightarrow> k a < k b"
  shows "py_sorted lt rv xs = (if rv then rev (sort_key k (rev xs)) else sort_key k xs)"
proof -
  have "sort_lt lt (rev xs) = sort_key k (rev xs)"
    by (rule sort_lt_sort_key) (use assms in simp)
  moreover have "sort_lt lt xs = sort_key k xs"
    by (rule sort_lt_sort_key) (use assms in simp)
  ultimately show ?thesis by (simp add: py_sorted_def)
qed

lemma cmp_neg_iff: "cmp a b < 0 \<longleftrightarrow> a < b"
  by (simp add: cmp_def)

lemma cmp_nonpos_iff: "cmp a b \<le> 0 \<longleftrightarrow> a \<le> b"
  by (auto simp: cmp_def)

lemma semver_compare_parsed:
  "parse a \<noteq> None \<Longrightarrow> parse b \<noteq> None \<Longrightarrow>
   semver_compare a b = Inr (cmp (precedence a) (precedence b))"
  by (auto simp: semver_compare_def precedence_def)

lemma semver_lt_parsed:
  "parse a \<noteq> None \<Longrightarrow> parse b \<noteq> None \<Longrightarrow> semver_lt a b \<longleftrightarrow> precedence a < precedence b"
  by (simp add: semver_lt_def semver_compare_parsed cmp_neg_iff)

lemma sorted_by_semver_parsed:
  assumes "\<forall>x\<in>set xs. parse (f x) \<noteq> None"
  shows "sorted_by_semver f rv xs =
         Inr (if rv then rev (sort_key (\<lambda>x. precedence (f x)) (rev xs))
              else sort_key (\<lambda>x. precedence (f x)) xs)"
proof -
  have "\<not> list_ex (\<lambda>x. parse (f x) = None) xs"
    using assms by (simp add: list_ex_iff)
  moreover have "py_sorted (\<lambda>a b. semver_lt (f a) (f b)) rv xs =
      (if rv then rev (sort_key (\<lambda>x. precedence (f x)) (rev xs))
       else sort_key (\<lambda>x. precedence (f x)) xs)"
    by (rule py_sorted_sort_key) (use assms in \<open>simp add: semver_lt_parsed\<close>)
  ultimately show ?thesis by (simp add: sorted_by_semver_def)
qed

lemma sorted_by_semver_short:
  "length xs \<le> 1 \<Longrightarrow> sorted_by_semver f rv xs = Inr xs"
  by (cases xs) (auto simp: sorted_by_semver_def py_sorted_def sort_lt_def)

lemma sorted_by_semver_raises:
  "2 \<le> length xs \<Longrightarrow> x \<in> set xs \<Longrightarrow> parse (f x) = None \<Longrightarrow> sorted_by_semver f rv xs = Inl ValueError"
  by (auto simp: sorted_by_semver_def list_ex_iff)

lemma last_filter_keep:
  assumes "xs \<noteq> []" "P (last xs)"
  shows "last (filter P xs) = last xs"
proof -
  have "filter P (butlast xs @ [last xs]) = filter P (butlast xs) @ [last xs]"
    using assms(2) by simp
  then show ?thesis using assms(1) by (metis append_butlast_last_id last_snoc)
qed

text \<open>The head of a stable descending sort: the first of the greatest elements.\<close>

lemma last_sort_key:
  assumes "ys \<noteq> []"
  shows "last (sort_key k ys) = last (filter (\<lambda>y. k y = k (last (sort_key k ys))) ys)
       \<and> (\<forall>y\<in>set ys. k y \<le> k (last (sort_key k ys)))"
proof -
  let ?s = "sort_key k ys"
  let ?r = "last ?s"
  have ne: "?s \<noteq> []" using assms by (metis length_sort length_0_conv)
  have srt: "sorted (map k ?s)" by (rule sorted_sort_key)
  have mx: "\<forall>y\<in>set ys. k y \<le> k ?r"
  proof
    fix y assume "y \<in> set ys"
    have dec: "butlast ?s @ [?r] = ?s" using ne by (rule append_butlast_last_id)
    from \<open>y \<in> set ys\<close> have y: "y \<in> set (butlast ?s @ [?r])"
      unfolding dec by simp
    have "sorted (map k (butlast ?s @ [?r]))"
      unfolding dec by (rule srt)
    then have "\<forall>x\<in>set (butlast ?s). k x \<le> k ?r"
      by (simp add: sorted_append)
    with y show "k y \<le> k ?r" by auto
  qed
  have "last (filter (\<lambda>y. k y = k ?r) ?s) = ?r"
    by (rule last_filter_keep) (use ne in simp_all)
  moreover have "filter (\<lambda>y. k y = k ?r) ?s = filter (\<lambda>y. k y = k ?r) ys"
    by (rule sort_key_stable)
  ultimately show ?thesis using mx by simp
qed

lemma hd_descending_sort:
  assumes "xs \<noteq> []" and "rev (sort_key k (rev xs)) = r # rest"
  shows "\<exists>pre post. xs = pre @ r # post \<and> (\<forall>t\<in>set pre. k t < k r) \<and> (\<forall>t\<in>set post. k t \<le> k r)"
proof -
  let ?s = "sort_key k (rev xs)"
  from assms(2) have s: "?s = rev rest @ [r]" by (metis rev.simps(2) rev_rev_ident)
  then have r: "last ?s = r" by simp
  from assms(1) have "rev xs \<noteq> []" by simp
  from last_sort_key [OF this, of k] r
  have l: "r = last (filter (\<lambda>y. k y = k r) (rev xs))" and mx: "\<forall>y\<in>set xs. k y \<le> k r"
    by simp_all
  have "r \<in> set xs" using s by (metis in_set_conv_decomp set_rev set_sort)
  then have ne: "filter (\<lambda>y. k y = k r) xs \<noteq> []" by (auto simp: filter_empty_conv)
  from l have "r = hd (filter (\<lambda>y. k y = k r) xs)"
    by (simp add: rev_filter [symmetric] last_rev)
  with ne obtain fs where "filter (\<lambda>y. k y = k r) xs = r # fs"
    by (cases "filter (\<lambda>y. k y = k r) xs") auto
  then obtain pre post where xs: "xs = pre @ r # post" and pre: "\<forall>u\<in>set pre. k u \<noteq> k r"
    by (auto simp: filter_eq_Cons_iff)
  have "\<forall>t\<in>set pre. k t < k r" using pre mx xs by (auto simp: order.strict_iff_order)
  moreover have "\<forall>t\<in>set post. k t \<le> k r" using mx xs by auto
  ultimately show ?thesis using xs by blast
qed


lemma latest_patch_none: "surviving_tags tags ver pat dist = [] \<Longrightarrow> latest_patch tags ver pat dist = Inr []"
  by (simp add: latest_patch_def)

lemma latest_patch_parsed:
  assumes "\<forall>t\<in>set (surviving_tags tags ver pat dist). parse t \<noteq> None"
    and "surviving_tags tags ver pat dist \<noteq> []"
  shows "\<exists>r pre post. latest_patch tags ver pat dist = Inr r
           \<and> surviving_tags tags ver pat dist = pre @ r # post
           \<and> (\<forall>t\<in>set pre. precedence t < precedence r)
           \<and> (\<forall>t\<in>set post. precedence t \<le> precedence r)"
proof -
  let ?S = "surviving_tags tags ver pat dist"
  let ?out = "rev (sort_key precedence (rev ?S))"
  have srt: "sorted_by_semver id True ?S = Inr ?out"
    using sorted_by_semver_parsed [of ?S id True] assms(1) by simp
  have "length ?out = length ?S" by simp
  with assms(2) obtain r rest where out: "?out = r # rest"
    by (cases ?out) auto
  from hd_descending_sort [OF assms(2) out] obtain pre post where
    "?S = pre @ r # post" "\<forall>t\<in>set pre. precedence t < precedence r"
    "\<forall>t\<in>set post. precedence t \<le> precedence r" by blast
  moreover have "latest_patch tags ver pat dist = Inr r"
    using assms(2) srt out by (simp add: latest_patch_def)
  ultimately show ?thesis by blast
qed

subsection \<open>The latest patch\<close>

text \<open>
  C1, as far as it holds. When every surviving tag is a semantic version,
  \<open>_latest_patch\<close> returns a surviving tag that no surviving tag exceeds in the semver
  order, and it returns the empty string when no tag survives; for the tags
  \<open>3.9.1-buster\<close>, \<open>3.9.2-buster\<close>, \<open>3.10.0-buster\<close>, the prefix \<open>3.9\<close> and the distro
  \<open>buster\<close>, with the pattern the pipeline compiles for \<open>buster\<close>, it returns
  \<open>3.9.2-buster\<close>.
\<close>

theorem latest_patch_is_maximum:
  assumes "\<forall>t\<in>set (surviving_tags tags ver pat dist). parse t \<noteq> None"
  shows "(surviving_tags tags ver pat dist = [] \<longrightarrow> latest_patch tags ver pat dist = Inr [])
       \<and> (surviving_tags tags ver pat dist \<noteq> [] \<longrightarrow>
            (\<exists>r. latest_patch tags ver pat dist = Inr r
               \<and> r \<in> set (surviving_tags tags ver pat dist)
               \<and> (\<forall>t\<in>set (surviving_tags tags ver pat dist).
                     \<exists>c. semver_compare t r = Inr c \<and> c \<le> 0)))
       \<and> latest_patch [''3.9.1-buster'', ''3.9.2-buster'', ''3.10.0-buster''] ''3.9''
            (wanted_tag_pattern [''buster'']) ''buster'' = Inr ''3.9.2-buster''"
proof (intro conjI impI)
  show "surviving_tags tags ver pat dist = [] \<Longrightarrow> latest_patch tags ver pat dist = Inr []"
    by (rule latest_patch_none)
next
  let ?S = "surviving_tags tags ver pat dist"
  assume ne: "?S \<noteq> []"
  from latest_patch_parsed [OF assms ne] obtain r pre post where
    r: "latest_patch tags ver pat dist = Inr r" and S: "?S = pre @ r # post"
    and pre: "\<forall>t\<in>set pre. precedence t < precedence r"
    and post: "\<forall>t\<in>set post. precedence t \<le> precedence r" by blast
  have rin: "r \<in> set ?S" using S by simp
  have "\<forall>t\<in>set ?S. \<exists>c. semver_compare t r = Inr c \<and> c \<le> 0"
  proof
    fix t assume t: "t \<in> set ?S"
    then have "precedence t \<le> precedence r"
      using S pre post by (metis Un_iff insert_iff less_imp_le list.simps(15) order_refl set_append)
    moreover have "semver_compare t r = Inr (cmp (precedence t) (precedence r))"
      using assms t rin by (simp add: semver_compare_parsed)
    ultimately show "\<exists>c. semver_compare t r = Inr c \<and> c \<le> 0"
      by (simp add: cmp_nonpos_iff)
  qed
  with r rin show "\<exists>r. latest_patch tags ver pat dist = Inr r \<and> r \<in> set ?S
      \<and> (\<forall>t\<in>set ?S. \<exists>c. semver_compare t r = Inr c \<and> c \<le> 0)" by blast
next
  show "latest_patch [''3.9.1-buster'', ''3.9.2-buster'', ''3.10.0-buster''] ''3.9''
            (wanted_tag_pattern [''buster'']) ''buster'' = Inr ''3.9.2-buster''"
    by code_simp
qed

theorem latest_patch_is_maximum_witness:
  "surviving_tags [''3.9.1-buster'', ''3.9.10-buster'', ''3.10.0-buster'', ''3.9.2-slim''] ''3.9''
       (wanted_tag_pattern [''buster'', ''slim'']) ''buster'' = [''3.9.1-buster'', ''3.9.10-buster'']
   \<and> latest_patch [''3.9.1-buster'', ''3.9.10-buster'', ''3.10.0-buster'', ''3.9.2-slim''] ''3.9''
       (wanted_tag_pattern [''buster'', ''slim'']) ''buster'' = Inr ''3.9.10-buster''
   \<and> semver_compare ''3.9.1-buster'' ''3.9.10-buster'' = Inr (- 1)"
proof -
  have s: "surviving_tags [''3.9.1-buster'', ''3.9.10-buster'', ''3.10.0-buster'', ''3.9.2-slim''] ''3.9''
       (wanted_tag_pattern [''buster'', ''slim'']) ''buster'' = [''3.9.1-buster'', ''3.9.10-buster'']"
    by code_simp
  have h: "\<forall>t\<in>set (surviving_tags [''3.9.1-buster'', ''3.9.10-buster'', ''3.10.0-buster'', ''3.9.2-slim'']
       ''3.9'' (wanted_tag_pattern [''buster'', ''slim'']) ''buster''). parse t \<noteq> None"
    unfolding s by code_simp
  have l: "latest_patch [''3.9.1-buster'', ''3.9.10-buster'', ''3.10.0-buster'', ''3.9.2-slim''] ''3.9''
       (wanted_tag_pattern [''buster'', ''slim'']) ''buster'' = Inr ''3.9.10-buster''"
    by code_simp
  have c: "semver_compare ''3.9.1-buster'' ''3.9.10-buster'' = Inr (- 1)"
    by code_simp
  from latest_patch_is_maximum [OF h] s l c show ?thesis by simp
qed

text \<open>
  C1 as stated, for every tag list and pattern, fails: two tags survive and one of them is
  no semantic version, so the comparison raises \<open>ValueError\<close>. The first tag list passes the
  pipeline's own pattern (a leading zero in the patch number); the second passes the empty
  pattern.
\<close>

theorem latest_patch_raises_counterexample:
  "latest_patch [''3.9.01-buster'', ''3.9.2-buster''] ''3.9'' (wanted_tag_pattern [''buster'']) ''buster''
     = Inl ValueError
   \<and> latest_patch [''3.9-buster'', ''3.9.1-buster''] ''3.9'' (wanted_tag_pattern []) ''buster''
     = Inl ValueError"
  by code_simp

text \<open>
  C7, as far as it holds. When the surviving tags are semantic versions, the tag returned
  is the first of the greatest ones in the order of the input: every surviving tag before
  it is strictly smaller, every one after it is smaller or equal.
\<close>

theorem latest_patch_first_of_ties:
  assumes "\<forall>t\<in>set (surviving_tags tags ver pat dist). parse t \<noteq> None"
    and "surviving_tags tags ver pat dist \<noteq> []"
  shows "\<exists>r pre post. latest_patch tags ver pat dist = Inr r
           \<and> surviving_tags tags ver pat dist = pre @ r # post
           \<and> (\<forall>t\<in>set pre. semver_compare t r = Inr (- 1))
           \<and> (\<forall>t\<in>set post. semver_compare t r = Inr (- 1) \<or> semver_compare t r = Inr 0)"
proof -
  let ?S = "surviving_tags tags ver pat dist"
  from latest_patch_parsed [OF assms] obtain r pre post where
    r: "latest_patch tags ver pat dist = Inr r" and S: "?S = pre @ r # post"
    and pre: "\<forall>t\<in>set pre. precedence t < precedence r"
    and post: "\<forall>t\<in>set post. precedence t \<le> precedence r" by blast
  have p: "\<forall>t\<in>set ?S. parse t \<noteq> None" by (rule assms(1))
  then have pr: "parse r \<noteq> None" using S by simp
  have "\<forall>t\<in>set pre. semver_compare t r = Inr (- 1)"
  proof
    fix t assume t: "t \<in> set pre"
    then have "parse t \<noteq> None" using p S by simp
    with pr have "semver_compare t r = Inr (cmp (precedence t) (precedence r))"
      by (simp add: semver_compare_parsed)
    with pre t show "semver_compare t r = Inr (- 1)" by (simp add: cmp_def)
  qed
  moreover have "\<forall>t\<in>set post. semver_compare t r = Inr (- 1) \<or> semver_compare t r = Inr 0"
  proof
    fix t assume t: "t \<in> set post"
    then have "parse t \<noteq> None" using p S by simp
    with pr have "semver_compare t r = Inr (cmp (precedence t) (precedence r))"
      by (simp add: semver_compare_parsed)
    with post t show "semver_compare t r = Inr (- 1) \<or> semver_compare t r = Inr 0"
      by (auto simp: cmp_def)
  qed
  ultimately show ?thesis using r S by blast
qed

theorem latest_patch_first_of_ties_witness:
  "latest_patch [''3.9.1-buster'', ''3.9.2-rc+b2-buster'', ''3.9.2-rc+b1-buster''] ''3.9''
       (wanted_tag_pattern []) ''buster'' = Inr ''3.9.2-rc+b2-buster''
   \<and> semver_compare ''3.9.2-rc+b1-buster'' ''3.9.2-rc+b2-buster'' = Inr 0
   \<and> latest_patch [''3.9.1-buster'', ''3.9.2-rc+b1-buster'', ''3.9.2-rc+b2-buster''] ''3.9''
       (wanted_tag_pattern []) ''buster'' = Inr ''3.9.2-rc+b1-buster''"
proof -
  have s: "surviving_tags [''3.9.1-buster'', ''3.9.2-rc+b2-buster'', ''3.9.2-rc+b1-buster''] ''3.9''
       (wanted_tag_pattern []) ''buster''
       = [''3.9.1-buster'', ''3.9.2-rc+b2-buster'', ''3.9.2-rc+b1-buster'']"
    by code_simp
  have h: "\<forall>t\<in>set (surviving_tags [''3.9.1-buster'', ''3.9.2-rc+b2-buster'', ''3.9.2-rc+b1-buster''] ''3.9''
       (wanted_tag_pattern []) ''buster''). parse t \<noteq> None"
    unfolding s by code_simp
  have n: "surviving_tags [''3.9.1-buster'', ''3.9.2-rc+b2-buster'', ''3.9.2-rc+b1-buster''] ''3.9''
       (wanted_tag_pattern []) ''buster'' \<noteq> []"
    unfolding s by simp
  have l: "latest_patch [''3.9.1-buster'', ''3.9.2-rc+b2-buster'', ''3.9.2-rc+b1-buster''] ''3.9''
       (wanted_tag_pattern []) ''buster'' = Inr ''3.9.2-rc+b2-buster''"
    by code_simp
  have c: "semver_compare ''3.9.2-rc+b1-buster'' ''3.9.2-rc+b2-buster'' = Inr 0"
    by code_simp
  have l2: "latest_patch [''3.9.1-buster'', ''3.9.2-rc+b1-buster'', ''3.9.2-rc+b2-buster''] ''3.9''
       (wanted_tag_pattern []) ''buster'' = Inr ''3.9.2-rc+b1-buster''"
    by code_simp
  from latest_patch_first_of_ties [OF h n] l c l2 show ?thesis by simp
qed

text \<open>
  C7 as stated, for every tag list with tied survivors, fails: two surviving tags have the
  same version number and a third survivor is no semantic version, so the comparison
  raises \<open>ValueError\<close> and no tag is returned. The first tag list passes the pipeline's own
  pattern; in the second, which passes the empty pattern, the two tied tags differ in their
  build metadata.
\<close>

theorem latest_patch_tie_raises_counterexample:
  "surviving_tags [''3.9.2-buster'', ''3.9.2-buster'', ''3.9.01-buster''] ''3.9''
       (wanted_tag_pattern [''buster'']) ''buster''
     = [''3.9.2-buster'', ''3.9.2-buster'', ''3.9.01-buster'']
   \<and> semver_compare ''3.9.2-buster'' ''3.9.2-buster'' = Inr 0
   \<and> latest_patch [''3.9.2-buster'', ''3.9.2-buster'', ''3.9.01-buster''] ''3.9''
       (wanted_tag_pattern [''buster'']) ''buster'' = Inl ValueError
   \<and> surviving_tags [''3.9.2+a-buster'', ''3.9.2+b-buster'', ''3.9-buster''] ''3.9''
       (wanted_tag_pattern []) ''buster''
     = [''3.9.2+a-buster'', ''3.9.2+b-buster'', ''3.9-buster'']
   \<and> semver_compare ''3.9.2+a-buster'' ''3.9.2+b-buster'' = Inr 0
   \<and> latest_patch [''3.9.2+a-buster'', ''3.9.2+b-buster'', ''3.9-buster''] ''3.9''
       (wanted_tag_pattern []) ''buster'' = Inl ValueError"
  by code_simp

subsection \<open>Change detection\<close>

lemma map_of_dict_put: "map_of (dict_put d k v) = (map_of d)(k \<mapsto> v)"
  by (induction d k v rule: dict_put.induct) (auto simp: fun_eq_iff)

lemma fst_set_dict_put: "fst ` set (dict_put d k v) = insert k (fst ` set d)"
  by (induction d k v rule: dict_put.induct) auto

lemma distinct_dict_put: "distinct (map fst d) \<Longrightarrow> distinct (map fst (dict_put d k v))"
proof (induction d k v rule: dict_put.induct)
  case (1 k v)
  then show ?case by simp
next
  case (2 k' v' kvs k v)
  then show ?case using fst_set_dict_put [of kvs k v] by (auto simp del: fst_set_dict_put)
qed

lemma dict_put_new: "k \<notin> fst ` set d \<Longrightarrow> dict_put d k v = d @ [(k, v)]"
  by (induction d k v rule: dict_put.induct) auto

lemma foldl_dict_put_map_of:
  "map_of (foldl (\<lambda>d ver. dict_put d (key ver) ver) d vs)
     = map_of (rev (map (\<lambda>v. (key v, v)) vs) @ d)"
proof (induction vs arbitrary: d)
  case Nil
  then show ?case by simp
next
  case (Cons v vs)
  show ?case
    by (simp add: Cons.IH map_of_dict_put fun_eq_iff map_add_def split: option.splits)
qed

lemma foldl_dict_put_distinct:
  "distinct (map fst d) \<Longrightarrow> distinct (map fst (foldl (\<lambda>d ver. dict_put d (key ver) ver) d vs))"
  by (induction vs arbitrary: d) (simp_all add: distinct_dict_put)

lemma foldl_dict_put_fresh:
  "distinct (map key vs) \<Longrightarrow> key ` set vs \<inter> fst ` set d = {} \<Longrightarrow>
   foldl (\<lambda>d ver. dict_put d (key ver) ver) d vs = d @ map (\<lambda>v. (key v, v)) vs"
proof (induction vs arbitrary: d)
  case Nil
  then show ?case by simp
next
  case (Cons v vs)
  from Cons.prems have fresh: "key v \<notin> fst ` set d" by auto
  have step: "dict_put d (key v) v = d @ [(key v, v)]" by (rule dict_put_new [OF fresh])
  have "key ` set vs \<inter> fst ` set (d @ [(key v, v)]) = {}"
    using Cons.prems by auto
  with Cons.IH [of "d @ [(key v, v)]"] Cons.prems step show ?case by simp
qed

lemma index_by_key_lookup:
  "map_of (index_by_key vs) = map_of (rev (map (\<lambda>v. (key v, v)) vs))"
  using foldl_dict_put_map_of [of "[]" vs] by (simp add: index_by_key_def)

lemma index_by_key_distinct: "distinct (map fst (index_by_key vs))"
  using foldl_dict_put_distinct [of "[]" vs] by (simp add: index_by_key_def)

lemma index_by_key_distinct_keys:
  "distinct (map key vs) \<Longrightarrow> index_by_key vs = map (\<lambda>v. (key v, v)) vs"
  using foldl_dict_put_fresh [of vs "[]"] by (simp add: index_by_key_def)

lemma index_by_key_Some_key:
  "map_of (index_by_key vs) k = Some v \<Longrightarrow> k = key v \<and> v \<in> set vs"
proof -
  assume "map_of (index_by_key vs) k = Some v"
  then have "(k, v) \<in> set (rev (map (\<lambda>v. (key v, v)) vs))"
    unfolding index_by_key_lookup by (rule map_of_SomeD)
  then show ?thesis by auto
qed

lemma index_by_key_None: "map_of (index_by_key vs) k = None \<longleftrightarrow> k \<notin> key ` set vs"
  unfolding index_by_key_lookup by (auto simp: map_of_eq_None_iff image_iff)

lemma index_by_key_mem:
  "(k, v) \<in> set (index_by_key vs) \<longleftrightarrow> map_of (index_by_key vs) k = Some v"
  using index_by_key_distinct [of vs] by (auto intro: map_of_is_SomeI dest: map_of_SomeD)

lemma index_by_key_distinct_lookup:
  "distinct (map key vs) \<Longrightarrow> map_of (index_by_key vs) (key v) = Some v \<longleftrightarrow> v \<in> set vs"
proof
  assume "map_of (index_by_key vs) (key v) = Some v"
  then show "v \<in> set vs" by (auto dest: index_by_key_Some_key)
next
  assume d: "distinct (map key vs)" and v: "v \<in> set vs"
  have "(key v, v) \<in> set (index_by_key vs)"
    using v by (simp add: index_by_key_distinct_keys [OF d])
  then show "map_of (index_by_key vs) (key v) = Some v" by (simp add: index_by_key_mem)
qed

lemma new_or_updated_mem:
  "v \<in> set (new_or_updated B N force) \<longleftrightarrow>
     map_of (index_by_key N) (key v) = Some v \<and>
     (map_of (index_by_key B) (key v) = None
      \<or> (\<exists>b. map_of (index_by_key B) (key v) = Some b \<and> b \<noteq> v)
      \<or> force)"
proof -
  have "v \<in> set (new_or_updated B N force) \<longleftrightarrow>
        (\<exists>k. (k, v) \<in> set (index_by_key N) \<and>
          (map_of (index_by_key B) k = None
           \<or> (map_of (index_by_key B) k \<noteq> None \<and> Some v \<noteq> map_of (index_by_key B) k)
           \<or> force))"
    by (auto simp: new_or_updated_def Let_def image_iff)
  also have "\<dots> \<longleftrightarrow> ((key v, v) \<in> set (index_by_key N) \<and>
          (map_of (index_by_key B) (key v) = None
           \<or> (map_of (index_by_key B) (key v) \<noteq> None \<and> Some v \<noteq> map_of (index_by_key B) (key v))
           \<or> force))"
    using index_by_key_Some_key [of N _ v] by (auto simp: index_by_key_mem)
  also have "\<dots> \<longleftrightarrow> (map_of (index_by_key N) (key v) = Some v \<and>
     (map_of (index_by_key B) (key v) = None
      \<or> (\<exists>b. map_of (index_by_key B) (key v) = Some b \<and> b \<noteq> v)
      \<or> force))"
    by (auto simp: index_by_key_mem)
  finally show ?thesis .
qed

lemma new_or_updated_force: "new_or_updated B N True = map snd (index_by_key N)"
  by (simp add: new_or_updated_def Let_def case_prod_unfold)

lemma new_or_updated_force_distinct:
  "distinct (map key N) \<Longrightarrow> new_or_updated B N True = N"
  by (simp add: new_or_updated_force index_by_key_distinct_keys comp_def)

text \<open>
  C3. With both sequences indexed by key (the last entry under a key is the entry of the
  index), a combination is in the new-or-updated list exactly when it is an entry of the
  index of the new sequence and its key is absent from the baseline, or the baseline's
  entry under the key differs from it, or force is set; with force the list holds every
  entry of the index. When the keys of the new sequence are distinct, its entries are its
  elements and the list with force is the new sequence itself.
\<close>

theorem new_or_updated_iff:
  "(v \<in> set (new_or_updated B N force) \<longleftrightarrow>
       map_of (index_by_key N) (key v) = Some v \<and>
       (map_of (index_by_key B) (key v) = None
        \<or> (\<exists>b. map_of (index_by_key B) (key v) = Some b \<and> b \<noteq> v)
        \<or> force))
   \<and> new_or_updated B N True = map snd (index_by_key N)
   \<and> (distinct (map key N) \<longrightarrow>
        (map_of (index_by_key N) (key v) = Some v \<longleftrightarrow> v \<in> set N)
        \<and> new_or_updated B N True = N)
   \<and> (map_of (index_by_key B) k = None \<longleftrightarrow> k \<notin> key ` set B)
   \<and> (distinct (map key B) \<longrightarrow> (map_of (index_by_key B) (key b) = Some b \<longleftrightarrow> b \<in> set B))"
  using new_or_updated_mem [of v B N force] new_or_updated_force [of B N]
    index_by_key_distinct_lookup [of N v] new_or_updated_force_distinct [of N B]
    index_by_key_None [of B k] index_by_key_distinct_lookup [of B b]
  by blast



theorem new_or_updated_iff_witness:
  "new_or_updated [example_old, example_same] [example_new, example_same] False = [example_new]
   \<and> new_or_updated [example_old, example_same] [example_new, example_same] True
       = [example_new, example_same]
   \<and> distinct (map key [example_new, example_same])
   \<and> example_new \<in> set [example_new, example_same]
   \<and> map_of (index_by_key [example_old, example_same]) (key example_new) = Some example_old
   \<and> example_old \<noteq> example_new"
proof -
  have d: "distinct (map key [example_new, example_same])"
    by (simp add: example_new_def example_old_def example_same_def)
  have n: "example_old \<noteq> example_new"
    by (simp add: example_new_def example_old_def)
  have e: "new_or_updated [example_old, example_same] [example_new, example_same] False = [example_new]"
    by (simp add: new_or_updated_def index_by_key_def example_new_def example_old_def example_same_def)
  have l: "map_of (index_by_key [example_old, example_same]) (key example_new) = Some example_old"
    by (simp add: index_by_key_def example_new_def example_old_def example_same_def)
  from new_or_updated_iff [of example_new "[example_old, example_same]" "[example_new, example_same]"
      False "key example_new" example_old] d
  have t: "new_or_updated [example_old, example_same] [example_new, example_same] True
       = [example_new, example_same]" by blast
  show ?thesis using d n e l t by simp
qed

subsection \<open>Keys of combinations\<close>

lemma mset_insort_lt: "mset (insort_lt lt x ys) = add_mset x (mset ys)"
  by (induction ys) auto

lemma mset_sort_lt: "mset (sort_lt lt xs) = mset xs"
  by (induction xs) (simp_all add: sort_lt_def mset_insort_lt)

lemma mset_py_sorted: "mset (py_sorted lt rv xs) = mset xs"
  by (simp add: py_sorted_def mset_sort_lt)

lemma sorted_by_semver_mset: "sorted_by_semver f rv xs = Inr ys \<Longrightarrow> mset ys = mset xs"
  by (auto simp: sorted_by_semver_def mset_py_sorted split: if_splits)

lemma sorted_by_distro_mset: "sorted_by_distro xs = Inr ys \<Longrightarrow> mset ys = mset xs"
  by (auto simp: sorted_by_distro_def mset_py_sorted split: if_splits)

lemma version_combinations_mset:
  assumes "version_combinations ns ps = Inr out"
  shows "mset out = mset (all_combinations ns ps)"
proof -
  from assms obtain v1 v2 where
    "sorted_by_distro (all_combinations ns ps) = Inr v1"
    "sorted_by_semver nodejs_canonical True v1 = Inr v2"
    "sorted_by_semver python_canonical True v2 = Inr out"
    by (auto simp: version_combinations_def split: sum.splits)
  then show ?thesis
    by (metis sorted_by_distro_mset sorted_by_semver_mset)
qed

lemma key_combination_of:
  "key (combination_of p n) = ''python'' @ p_key p @ ''-nodejs'' @ n_key n
      @ (if p_distro p \<noteq> DEFAULT_DISTRO then ''-'' @ p_distro p else [])"
  by (simp add: combination_of_def Let_def)

text \<open>A text without a hyphen is what stands before the first hyphen.\<close>

lemma takeWhile_no_hyphen:
  "CHR ''-'' \<notin> set a \<Longrightarrow> takeWhile (\<lambda>c. c \<noteq> CHR ''-'') (a @ CHR ''-'' # r) = a"
  by (induction a) auto

lemma takeWhile_no_hyphen_end:
  "CHR ''-'' \<notin> set a \<Longrightarrow> takeWhile (\<lambda>c. c \<noteq> CHR ''-'') a = a"
  by (induction a) auto

lemma hyphen_split_unique:
  assumes "a @ CHR ''-'' # r = a' @ CHR ''-'' # r'" "CHR ''-'' \<notin> set a" "CHR ''-'' \<notin> set a'"
  shows "a = a' \<and> r = r'"
proof -
  have "takeWhile (\<lambda>c. c \<noteq> CHR ''-'') (a @ CHR ''-'' # r) = a"
    "takeWhile (\<lambda>c. c \<noteq> CHR ''-'') (a' @ CHR ''-'' # r') = a'"
    using assms(2,3) by (simp_all add: takeWhile_no_hyphen)
  with assms(1) have "a = a'" by simp
  with assms(1) show ?thesis by simp
qed


lemma distro_suffix_inj: "suffix_of_distro d = suffix_of_distro d' \<Longrightarrow> d = d'"
  by (auto simp: suffix_of_distro_def split: if_splits)

lemma key_tail_unique:
  assumes "n @ suffix_of_distro d = n' @ suffix_of_distro d'" "CHR ''-'' \<notin> set n" "CHR ''-'' \<notin> set n'"
  shows "n = n' \<and> d = d'"
proof -
  have tw: "takeWhile (\<lambda>c. c \<noteq> CHR ''-'') (m @ suffix_of_distro e) = m" if "CHR ''-'' \<notin> set m" for m e
    using that by (simp add: suffix_of_distro_def takeWhile_no_hyphen takeWhile_no_hyphen_end)
  from tw [OF assms(2), of d] tw [OF assms(3), of d'] assms(1) have "n = n'" by simp
  with assms(1) have "suffix_of_distro d = suffix_of_distro d'" by simp
  with \<open>n = n'\<close> show ?thesis by (simp add: distro_suffix_inj)
qed

lemma key_combination_inj:
  assumes "key (combination_of p n) = key (combination_of p' n')"
    and "CHR ''-'' \<notin> set (p_key p)" "CHR ''-'' \<notin> set (p_key p')"
    and "CHR ''-'' \<notin> set (n_key n)" "CHR ''-'' \<notin> set (n_key n')"
  shows "p_key p = p_key p' \<and> n_key n = n_key n' \<and> p_distro p = p_distro p'"
proof -
  from assms(1) have
    "p_key p @ CHR ''-'' # (''nodejs'' @ n_key n @ suffix_of_distro (p_distro p))
     = p_key p' @ CHR ''-'' # (''nodejs'' @ n_key n' @ suffix_of_distro (p_distro p'))"
    by (simp add: key_combination_of suffix_of_distro_def)
  from hyphen_split_unique [OF this assms(2,3)]
  have pk: "p_key p = p_key p'"
    and "n_key n @ suffix_of_distro (p_distro p) = n_key n' @ suffix_of_distro (p_distro p')"
    by simp_all
  from key_tail_unique [OF this(2) assms(4,5)] pk show ?thesis by simp
qed

lemma all_combinations_product:
  "all_combinations ns ps = map (\<lambda>(p, n). combination_of p n) (List.product ps ns)"
  by (induction ps) (simp_all add: all_combinations_def comp_def)

lemma all_combinations_keys_distinct:
  assumes dp: "distinct (map (\<lambda>p. (p_key p, p_distro p)) ps)" and dn: "distinct (map n_key ns)"
    and hp: "\<forall>p\<in>set ps. CHR ''-'' \<notin> set (p_key p)" and hn: "\<forall>n\<in>set ns. CHR ''-'' \<notin> set (n_key n)"
  shows "distinct (map key (all_combinations ns ps))"
proof -
  from dp have ps: "distinct ps" and ip: "inj_on (\<lambda>p. (p_key p, p_distro p)) (set ps)"
    by (simp_all add: distinct_map)
  from dn have ns: "distinct ns" and "inj_on n_key (set ns)"
    by (simp_all add: distinct_map)
  note inn = this(2)
  have "inj_on (\<lambda>(p, n). key (combination_of p n)) (set (List.product ps ns))"
  proof (rule inj_onI, clarify)
    fix p n p' n'
    assume m: "(p, n) \<in> set (List.product ps ns)" "(p', n') \<in> set (List.product ps ns)"
      and k: "key (combination_of p n) = key (combination_of p' n')"
    from m have mem: "p \<in> set ps" "p' \<in> set ps" "n \<in> set ns" "n' \<in> set ns" by auto
    from key_combination_inj [OF k] mem hp hn
    have "p_key p = p_key p' \<and> n_key n = n_key n' \<and> p_distro p = p_distro p'" by blast
    with ip inn mem show "p = p' \<and> n = n'" by (auto dest: inj_onD)
  qed
  moreover have "distinct (List.product ps ns)" using ps ns by (rule distinct_product)
  ultimately have "distinct (map (\<lambda>(p, n). key (combination_of p n)) (List.product ps ns))"
    by (simp add: distinct_map)
  then show ?thesis by (simp add: all_combinations_product comp_def case_prod_unfold)
qed

text \<open>
  C4. The key of a combination is \<open>python\<close>, the Python key, \<open>-nodejs\<close>, the Node.js key
  and, exactly when the distro is not the default one, \<open>-\<close> and the distro. For keys that
  hold no hyphen (minor versions such as \<open>3.9\<close> and \<open>18\<close>), two pairs have the same key
  only if they agree on Python key, Node.js key and distro; so whenever the Python
  entries differ pairwise in (key, distro) and the Node.js entries in their key, the keys of
  the combinations \<open>version_combinations\<close> returns are pairwise distinct.
\<close>

theorem combination_key_unique:
  assumes "\<forall>p\<in>set ps. CHR ''-'' \<notin> set (p_key p)" and "\<forall>n\<in>set ns. CHR ''-'' \<notin> set (n_key n)"
  shows "(\<forall>p n. key (combination_of p n) = ''python'' @ p_key p @ ''-nodejs'' @ n_key n
             @ (if p_distro p \<noteq> DEFAULT_DISTRO then ''-'' @ p_distro p else []))
    \<and> (\<forall>p\<in>set ps. \<forall>p'\<in>set ps. \<forall>n\<in>set ns. \<forall>n'\<in>set ns.
          key (combination_of p n) = key (combination_of p' n') \<longrightarrow>
          p_key p = p_key p' \<and> n_key n = n_key n' \<and> p_distro p = p_distro p')
    \<and> (\<forall>out. distinct (map (\<lambda>p. (p_key p, p_distro p)) ps) \<and> distinct (map n_key ns)
           \<and> version_combinations ns ps = Inr out \<longrightarrow> distinct (map key out))"
proof (intro conjI allI ballI impI)
  fix p n
  show "key (combination_of p n) = ''python'' @ p_key p @ ''-nodejs'' @ n_key n
             @ (if p_distro p \<noteq> DEFAULT_DISTRO then ''-'' @ p_distro p else [])"
    by (rule key_combination_of)
next
  fix p p' n n'
  assume "p \<in> set ps" "p' \<in> set ps" "n \<in> set ns" "n' \<in> set ns"
    and "key (combination_of p n) = key (combination_of p' n')"
  with key_combination_inj [of p n p' n'] assms
  show "p_key p = p_key p'" "n_key n = n_key n'" "p_distro p = p_distro p'" by blast+
next
  fix out
  assume a: "distinct (map (\<lambda>p. (p_key p, p_distro p)) ps) \<and> distinct (map n_key ns)
           \<and> version_combinations ns ps = Inr out"
  then have "distinct (map key (all_combinations ns ps))"
    using all_combinations_keys_distinct assms by blast
  moreover have "mset (map key out) = mset (map key (all_combinations ns ps))"
    using a version_combinations_mset [of ns ps out] by simp
  ultimately show "distinct (map key out)" by (metis mset_eq_imp_distinct_iff)
qed



theorem combination_key_unique_witness:
  "map_sum id (map key) (version_combinations example_nodes example_pythons)
     = Inr [''python3.10-nodejs18'', ''python3.10-nodejs18-slim'',
            ''python3.10-nodejs16'', ''python3.10-nodejs16-slim'',
            ''python3.9-nodejs18'', ''python3.9-nodejs18-slim'',
            ''python3.9-nodejs16'', ''python3.9-nodejs16-slim'']
   \<and> distinct (map (\<lambda>p. (p_key p, p_distro p)) example_pythons)
   \<and> distinct (map n_key example_nodes)
   \<and> (\<exists>out. version_combinations example_nodes example_pythons = Inr out \<and> distinct (map key out))"
proof -
  have hp: "\<forall>p\<in>set example_pythons. CHR ''-'' \<notin> set (p_key p)"
    by (simp add: example_pythons_def)
  have hn: "\<forall>n\<in>set example_nodes. CHR ''-'' \<notin> set (n_key n)"
    by (simp add: example_nodes_def)
  have dp: "distinct (map (\<lambda>p. (p_key p, p_distro p)) example_pythons)"
    by (simp add: example_pythons_def)
  have dn: "distinct (map n_key example_nodes)"
    by (simp add: example_nodes_def)
  have v: "map_sum id (map key) (version_combinations example_nodes example_pythons)
     = Inr [''python3.10-nodejs18'', ''python3.10-nodejs18-slim'',
            ''python3.10-nodejs16'', ''python3.10-nodejs16-slim'',
            ''python3.9-nodejs18'', ''python3.9-nodejs18-slim'',
            ''python3.9-nodejs16'', ''python3.9-nodejs16-slim'']"
    by code_simp
  then obtain out where out: "version_combinations example_nodes example_pythons = Inr out"
    by (cases "version_combinations example_nodes example_pythons") auto
  with combination_key_unique [OF hp hn] dp dn have "distinct (map key out)" by blast
  with out dp dn v show ?thesis by blast
qed

subsection \<open>The order of the combinations\<close>


























subsection \<open>The README table\<close>

lemma parse_template_plain:
  "backslash \<notin> set t \<Longrightarrow> parse_template t = Inr (map Lit t)"
  by (induction t) auto

lemma expand_plain: "expand (map Lit t) whole g = t"
  by (induction t) auto

text \<open>The substitution with a replacement that holds no backslash.\<close>

lemma re_sub_plain_Nil: "re_sub (map Lit t) [] = []"
  by simp

lemma re_sub_plain_Cons:
  "re_sub (map Lit t) (c # cs) =
     (case match_here (c # cs) of
        None \<Rightarrow> c # re_sub (map Lit t) cs
      | Some (g, rest) \<Rightarrow> t @ re_sub (map Lit t) rest)"
  by (simp add: expand_plain split: option.splits)

lemma start_matches_iff:
  "start_matches s \<longleftrightarrow> (\<exists>a rest. s = start_words @ a # nl # rest)"
proof
  assume "start_matches s"
  then obtain r where s: "s = start_words @ r"
    and c: "(case r of _ # c # _ \<Rightarrow> c = nl | _ \<Rightarrow> False)"
    by (auto simp: start_matches_def prefix_def)
  from c obtain a rest where "r = a # nl # rest"
    by (auto split: list.splits)
  with s show "\<exists>a rest. s = start_words @ a # nl # rest" by blast
next
  assume "\<exists>a rest. s = start_words @ a # nl # rest"
  then show "start_matches s" by (auto simp: start_matches_def)
qed

lemma start_matches_marker: "start_matches (start_marker @ x)"
  by (simp add: start_matches_iff start_marker_def)

lemma length_start_marker: "length start_marker = 45"
  by (simp add: start_marker_def start_words_def)

text \<open>Two places where \<open>start\<close> matches are at least its length apart.\<close>

lemma start_no_overlap:
  assumes "start_matches s" "start_matches (drop k s)" "0 < k"
  shows "45 \<le> k"
proof (rule ccontr)
  assume "\<not> 45 \<le> k"
  then have k: "k < 45" by simp
  from assms(1) obtain a rest where s: "s = start_words @ a # nl # rest"
    by (auto simp: start_matches_iff)
  from assms(2) have p: "prefix ''th'' (drop k s)"
    by (auto simp: start_matches_iff start_words_def)
  from k assms(3) have "k \<in> {1..<45}" by simp
  then have "k \<in> set [1..<45]" by simp
  then have "\<not> prefix ''th'' (drop k s)"
    unfolding s start_words_def nl_def
    by (simp add: upt_rec [of _ 45] del: upt_Suc) (elim disjE; simp)
  with p show False by simp
qed


lemma start_matches_take: "start_matches s \<longleftrightarrow> start_matches (take 45 s)"
proof
  assume "start_matches s"
  then obtain a rest where "s = start_words @ a # nl # rest" by (auto simp: start_matches_iff)
  then have "take 45 s = start_words @ a # nl # []" by (simp add: start_words_def)
  then show "start_matches (take 45 s)" unfolding start_matches_iff by blast
next
  assume "start_matches (take 45 s)"
  then obtain a rest where t: "take 45 s = start_words @ a # nl # rest"
    by (auto simp: start_matches_iff)
  have "s = take 45 s @ drop 45 s" by simp
  with t have "s = start_words @ a # nl # (rest @ drop 45 s)" by simp
  then show "start_matches s" unfolding start_matches_iff by blast
qed

lemma start_matches_long_prefix:
  "45 \<le> length pre \<Longrightarrow> start_matches (pre @ x) = start_matches (pre @ y)"
  using start_matches_take [of "pre @ x"] start_matches_take [of "pre @ y"] by simp

lemma start_matches_shifted:
  assumes "start_matches x" "start_matches y"
  shows "start_matches (pre @ x) = start_matches (pre @ y)"
proof (cases "pre = []")
  case True
  with assms show ?thesis by simp
next
  case False
  show ?thesis
  proof (cases "45 \<le> length pre")
    case True
    then show ?thesis by (rule start_matches_long_prefix)
  next
    case short: False
    have "\<not> start_matches (pre @ z)" if "start_matches z" for z
    proof
      assume "start_matches (pre @ z)"
      moreover have "start_matches (drop (length pre) (pre @ z))" using that by simp
      ultimately have "45 \<le> length pre" using False by (intro start_no_overlap) auto
      with short show False by simp
    qed
    with assms show ?thesis by simp
  qed
qed

lemma match_here_start: "match_here s = Some (g, rest) \<Longrightarrow> start_matches s"
  by (simp add: match_here_def split: if_splits)

text \<open>The substitution does not move the places where \<open>start\<close> matches.\<close>

lemma start_matches_re_sub:
  assumes t: "start_matches (t @ [])" "\<And>x. start_matches (t @ x)"
  shows "start_matches (pre @ re_sub (map Lit t) s) = start_matches (pre @ s)"
proof (induction "length s" arbitrary: s pre rule: less_induct)
  case less
  show ?case
  proof (cases s)
    case Nil
    then show ?thesis by simp
  next
    case (Cons c cs)
    show ?thesis
    proof (cases "match_here (c # cs)")
      case None
      have "start_matches ((pre @ [c]) @ re_sub (map Lit t) cs) = start_matches ((pre @ [c]) @ cs)"
        by (rule less) (simp add: Cons)
      with None Cons show ?thesis by (simp add: re_sub_plain_Cons del: re_sub.simps(2))
    next
      case (Some m)
      obtain g rest where m: "m = (g, rest)" by (cases m)
      from Some m have "start_matches (c # cs)" by (auto dest: match_here_start)
      moreover have "start_matches (t @ re_sub (map Lit t) rest)" by (rule t(2))
      ultimately have "start_matches (pre @ t @ re_sub (map Lit t) rest) = start_matches (pre @ c # cs)"
        by (intro start_matches_shifted)
      with Some m Cons show ?thesis by (simp add: re_sub_plain_Cons del: re_sub.simps(2))
    qed
  qed
qed

lemma find_end_tl: "find_end cs \<noteq> None \<Longrightarrow> find_end (c # cs) \<noteq> None"
  by (cases "find_end cs") auto

lemma find_end_drop: "find_end (drop n r) \<noteq> None \<Longrightarrow> find_end r \<noteq> None"
proof (induction n arbitrary: r)
  case 0
  then show ?case by simp
next
  case (Suc n)
  show ?case
  proof (cases r)
    case Nil
    with Suc.prems show ?thesis by simp
  next
    case (Cons c cs)
    with Suc.prems have "find_end (drop n cs) \<noteq> None" by simp
    then have "find_end cs \<noteq> None" by (rule Suc.IH)
    then show ?thesis unfolding Cons by (rule find_end_tl)
  qed
qed

lemma match_here_end: "match_here u \<noteq> None \<Longrightarrow> find_end (drop 46 u) \<noteq> None"
proof -
  assume "match_here u \<noteq> None"
  then obtain c r where d: "drop 45 u = c # r" and f: "find_end r \<noteq> None"
    by (auto simp: match_here_def length_start_marker split: if_splits list.splits)
  have "drop 46 u = drop 1 (drop 45 u)" by simp
  with d have "drop 46 u = r" by simp
  with f show ?thesis by simp
qed

lemma re_sub_no_match:
  "(\<And>j. match_here (drop j u) = None) \<Longrightarrow> re_sub (map Lit t) u = u"
proof (induction u)
  case Nil
  then show ?case by simp
next
  case (Cons c cs)
  from Cons.prems [of 0] have n: "match_here (c # cs) = None" by simp
  have "match_here (drop j cs) = None" for j using Cons.prems [of "Suc j"] by simp
  then have "re_sub (map Lit t) cs = cs" by (rule Cons.IH)
  with n show ?case by (simp add: re_sub_plain_Cons del: re_sub.simps(2))
qed

text \<open>Where \<open>start\<close> matches and no \<open>end\<close> follows, nothing matches further on.\<close>

lemma re_sub_no_end:
  assumes "start_matches s" "match_here s = None"
  shows "re_sub (map Lit t) (drop 1 s) = drop 1 s"
proof (rule re_sub_no_match)
  fix j
  show "match_here (drop j (drop 1 s)) = None"
  proof (rule ccontr)
    assume "match_here (drop j (drop 1 s)) \<noteq> None"
    then have "find_end (drop 46 (drop j (drop 1 s))) \<noteq> None" by (rule match_here_end)
    moreover have "drop 46 (drop j (drop 1 s)) = drop (Suc j) (drop 46 s)"
      by (simp add: add.commute)
    ultimately have e: "find_end (drop 46 s) \<noteq> None"
      using find_end_drop [of "Suc j" "drop 46 s"] by simp
    have d: "drop 46 s = drop 1 (drop 45 s)" by simp
    from e d obtain c' r where cr: "drop 45 s = c' # r"
      by (cases "drop 45 s") auto
    with d have "drop 46 s = r" by simp
    with e have "find_end r \<noteq> None" by simp
    with cr assms show False
      by (auto simp: match_here_def length_start_marker)
  qed
qed

text \<open>
  Idempotence: when the replacement begins with a place where \<open>start\<close> matches and is
  itself matched whole by the pattern, substituting again changes nothing.
\<close>

lemma re_sub_idempotent:
  assumes st: "\<And>x. start_matches (t @ x)"
    and whole: "\<And>x. \<exists>g. match_here (t @ x) = Some (g, x)"
    and ne: "t \<noteq> []"
  shows "re_sub (map Lit t) (re_sub (map Lit t) s) = re_sub (map Lit t) s"
proof (induction "length s" arbitrary: s rule: less_induct)
  case less
  let ?f = "re_sub (map Lit t)"
  have again: "?f (t @ x) = t @ ?f x" for x
  proof -
    from ne obtain c cs where t: "t = c # cs" by (cases t) auto
    from whole [of x] obtain g where "match_here (t @ x) = Some (g, x)" by blast
    then show ?thesis using re_sub_plain_Cons [of t c "cs @ x"] by (simp add: t del: re_sub.simps(2))
  qed
  show ?case
  proof (cases s)
    case Nil
    then show ?thesis by simp
  next
    case (Cons c cs)
    show ?thesis
    proof (cases "match_here (c # cs)")
      case (Some m)
      obtain g rest where m: "m = (g, rest)" by (cases m)
      from Some m have "length rest < length s"
        unfolding Cons by (auto dest: match_here_shorter)
      then have "?f (?f rest) = ?f rest" by (rule less)
      moreover have "?f s = t @ ?f rest"
        using Some m Cons by (simp add: re_sub_plain_Cons del: re_sub.simps(2))
      ultimately show ?thesis by (simp add: again)
    next
      case None
      show ?thesis
      proof (cases "start_matches (c # cs)")
        case True
        from re_sub_no_end [OF True None] have "?f cs = cs" by simp
        with None Cons show ?thesis by (simp add: re_sub_plain_Cons del: re_sub.simps(2))
      next
        case False
        have "start_matches ([c] @ ?f cs) = start_matches ([c] @ cs)"
          by (rule start_matches_re_sub) (rule st)+
        with False have "\<not> start_matches (c # ?f cs)" by simp
        then have n: "match_here (c # ?f cs) = None" by (simp add: match_here_def)
        have "?f (?f cs) = ?f cs" by (rule less) (simp add: Cons)
        with n None Cons show ?thesis by (simp add: re_sub_plain_Cons del: re_sub.simps(2))
      qed
    qed
  qed
qed



lemma no_break_L_plain: "nl \<notin> set s \<Longrightarrow> no_break_L s"
  by (induction s rule: no_break_L.induct) auto

lemma no_break_L_append:
  "no_break_L xs \<Longrightarrow> no_break_L ys \<Longrightarrow> ys = [] \<or> hd ys \<noteq> CHR ''L'' \<Longrightarrow> no_break_L (xs @ ys)"
proof (induction xs rule: no_break_L.induct)
  case 1
  then show ?case by simp
next
  case (2 c)
  then show ?case by (cases ys) auto
next
  case (3 a b r)
  then show ?case by simp
qed

lemma no_break_L_nl_Cons: "no_break_L J \<Longrightarrow> J = [] \<or> hd J \<noteq> CHR ''L'' \<Longrightarrow> no_break_L (nl # J)"
  by (cases J) auto

lemma join_lines_ok:
  assumes "\<forall>l\<in>set ls. nl \<notin> set l \<and> (l = [] \<or> hd l \<noteq> CHR ''L'')"
  shows "no_break_L (join [nl] ls) \<and> (join [nl] ls = [] \<or> hd (join [nl] ls) \<noteq> CHR ''L'')"
  using assms
proof (induction "[nl]" ls rule: join.induct)
  case 1
  then show ?case by simp
next
  case (2 x)
  then show ?case by (simp add: no_break_L_plain)
next
  case (3 x y ys)
  then have ih: "no_break_L (join [nl] (y # ys))"
    "join [nl] (y # ys) = [] \<or> hd (join [nl] (y # ys)) \<noteq> CHR ''L''" by simp_all
  from 3(2) have x: "nl \<notin> set x" "x = [] \<or> hd x \<noteq> CHR ''L''" by simp_all
  have tail: "no_break_L (nl # join [nl] (y # ys))"
    using ih by (rule no_break_L_nl_Cons)
  have "no_break_L (x @ nl # join [nl] (y # ys))"
    by (rule no_break_L_append [OF no_break_L_plain [OF x(1)] tail]) (simp add: nl_def)
  moreover have "hd (x @ nl # join [nl] (y # ys)) \<noteq> CHR ''L''"
    using x(2) by (cases x) (auto simp: nl_def)
  ultimately show ?case by simp
qed

lemma set_join: "set (join sep xs) \<subseteq> set sep \<union> \<Union> (set ` set xs)"
  by (induction sep xs rule: join.induct) auto

lemma row_line:
  assumes "plain_fields v"
  shows "nl \<notin> set (join '' | '' (table_row v))" "backslash \<notin> set (join '' | '' (table_row v))"
    "hd (join '' | '' (table_row v)) \<noteq> CHR ''L''" "join '' | '' (table_row v) \<noteq> []"
  using assms
  by (auto simp: plain_fields_def plain_text_def table_row_def nl_def backslash_def)

lemma head_lines:
  "nl \<notin> set (join '' | '' headings)" "backslash \<notin> set (join '' | '' headings)"
  "nl \<notin> set (join '' | '' (map (\<lambda>h. ''---'') headings))"
  "backslash \<notin> set (join '' | '' (map (\<lambda>h. ''---'') headings))"
  by (simp_all add: headings_def nl_def backslash_def)

lemma tags_table_plain:
  assumes "\<forall>v\<in>set versions. plain_fields v"
  shows "backslash \<notin> set (tags_table versions)" "no_break_L (tags_table versions @ [nl])"
proof -
  let ?rows = "map (\<lambda>v. join '' | '' (table_row v)) versions"
  have rows: "\<forall>l\<in>set ?rows. nl \<notin> set l \<and> (l = [] \<or> hd l \<noteq> CHR ''L'')"
    using assms by (auto simp: row_line)
  have rows_b: "\<forall>l\<in>set ?rows. backslash \<notin> set l"
    using assms by (auto simp: row_line)
  have "set (join [nl] ?rows) \<subseteq> set [nl] \<union> \<Union> (set ` set ?rows)" by (rule set_join)
  with rows_b have body_b: "backslash \<notin> set (join [nl] ?rows)"
    by (auto simp: nl_def backslash_def)
  show "backslash \<notin> set (tags_table versions)"
    using body_b head_lines
    by (auto simp: tags_table_def Let_def comp_def nl_def backslash_def)
  from join_lines_ok [OF rows]
  have body: "no_break_L (join [nl] ?rows)"
    "join [nl] ?rows = [] \<or> hd (join [nl] ?rows) \<noteq> CHR ''L''" by simp_all
  let ?h1 = "join '' | '' headings" and ?h2 = "join '' | '' (map (\<lambda>h. ''---'') headings)"
  have e: "no_break_L [nl, nl]" by (simp add: nl_def)
  have b: "no_break_L (join [nl] ?rows @ [nl, nl])"
    by (rule no_break_L_append [OF body(1) e]) (simp add: nl_def)
  have hb: "join [nl] ?rows @ [nl, nl] = [] \<or> hd (join [nl] ?rows @ [nl, nl]) \<noteq> CHR ''L''"
    using body(2) by (cases "join [nl] ?rows") (auto simp: nl_def)
  have b': "no_break_L (nl # join [nl] ?rows @ [nl, nl])"
    using b hb by (rule no_break_L_nl_Cons)
  have "no_break_L (?h2 @ nl # join [nl] ?rows @ [nl, nl])"
    by (rule no_break_L_append [OF no_break_L_plain [OF head_lines(3)] b']) (simp add: nl_def)
  moreover have "hd (?h2 @ nl # join [nl] ?rows @ [nl, nl]) \<noteq> CHR ''L''"
    by (simp add: headings_def)
  ultimately have "no_break_L (nl # ?h2 @ nl # join [nl] ?rows @ [nl, nl])"
    by (intro no_break_L_nl_Cons) auto
  then have "no_break_L (?h1 @ nl # ?h2 @ nl # join [nl] ?rows @ [nl, nl])"
    by (intro no_break_L_append [OF no_break_L_plain [OF head_lines(1)]]) (auto simp: nl_def)
  then show "no_break_L (tags_table versions @ [nl])"
    by (simp add: tags_table_def Let_def comp_def)
qed

lemma find_end_after_table:
  "no_break_L (T @ [nl]) \<Longrightarrow> find_end (T @ end_marker @ x) = Some (T, x)"
proof (induction T)
  case Nil
  then show ?case by (simp add: end_marker_def)
next
  case (Cons a T)
  obtain b r where br: "T @ [nl] = b # r" by (cases "T @ [nl]") auto
  with Cons.prems have nb: "\<not> (a = nl \<and> b = CHR ''L'')" and rest: "no_break_L (T @ [nl])"
    by simp_all
  have "T @ end_marker @ x = b # (tl (T @ end_marker @ x))"
    using br by (cases T) (auto simp: end_marker_def)
  then have "\<not> prefix end_marker (a # T @ end_marker @ x)"
    using nb by (metis Cons_prefix_Cons end_marker_def)
  with Cons.IH [OF rest] show ?case by simp
qed



lemma replacement_plain:
  assumes "\<forall>v\<in>set versions. plain_fields v"
  shows "backslash \<notin> set (replacement versions)"
  using tags_table_plain(1) [OF assms]
  by (simp add: replacement_def start_marker_def start_words_def end_marker_def nl_def backslash_def)

lemma replacement_matched:
  assumes "\<forall>v\<in>set versions. plain_fields v"
  shows "match_here (replacement versions @ x) = Some (nl # tags_table versions, x)"
proof -
  have d: "drop (length start_marker) (replacement versions @ x)
      = nl # tags_table versions @ end_marker @ x"
    by (simp add: replacement_def)
  have "start_matches (replacement versions @ x)"
    using start_matches_marker [of "[nl] @ tags_table versions @ end_marker @ x"]
    by (simp add: replacement_def)
  moreover have "find_end (tags_table versions @ end_marker @ x) = Some (tags_table versions, x)"
    by (rule find_end_after_table) (rule tags_table_plain(2) [OF assms])
  ultimately show ?thesis unfolding match_here_def d by simp
qed

lemma readme_new_text_plain:
  assumes "\<forall>v\<in>set versions. plain_fields v"
  shows "readme_new_text versions readme = Inr (re_sub (map Lit (replacement versions)) readme)"
  using parse_template_plain [OF replacement_plain [OF assms]]
  by (simp add: readme_new_text_def replacement_def)

lemma readme_new_text_idempotent:
  assumes "\<forall>v\<in>set versions. plain_fields v"
  shows "\<exists>r. readme_new_text versions readme = Inr r \<and> readme_new_text versions r = Inr r"
proof -
  let ?t = "replacement versions"
  have st: "start_matches (?t @ x)" for x
    using replacement_matched [OF assms, of x] by (auto dest: match_here_start)
  have whole: "\<exists>g. match_here (?t @ x) = Some (g, x)" for x
    using replacement_matched [OF assms, of x] by blast
  have ne: "?t \<noteq> []" by (simp add: replacement_def start_marker_def)
  have "re_sub (map Lit ?t) (re_sub (map Lit ?t) readme) = re_sub (map Lit ?t) readme"
    using st whole ne by (rule re_sub_idempotent)
  then show ?thesis by (simp add: readme_new_text_plain [OF assms])
qed

text \<open>Reading in text mode leaves no carriage return, and changes no text without one.\<close>

lemma read_text_no_cr: "cr \<notin> set (read_text s)"
  by (induction s rule: read_text.induct) (auto simp: cr_def nl_def)

lemma read_text_id: "cr \<notin> set s \<Longrightarrow> read_text s = s"
  by (induction s rule: read_text.induct) auto

lemma find_end_rest: "find_end r = Some (a, b) \<Longrightarrow> set b \<subseteq> set r"
proof (induction r arbitrary: a)
  case Nil
  then show ?case by simp
next
  case (Cons c cs)
  show ?case
  proof (cases "prefix end_marker (c # cs)")
    case True
    with Cons.prems have "b = drop (length end_marker) (c # cs)" by simp
    then show ?thesis using set_drop_subset [of "length end_marker" "c # cs"] by simp
  next
    case False
    with Cons.prems obtain a' where "find_end cs = Some (a', b)" by auto
    from Cons.IH [OF this] show ?thesis by auto
  qed
qed

lemma match_here_rest: "match_here s = Some (g, rest) \<Longrightarrow> set rest \<subseteq> set s"
proof -
  assume "match_here s = Some (g, rest)"
  then obtain c r a where d: "drop (length start_marker) s = c # r" and f: "find_end r = Some (a, rest)"
    by (auto simp: match_here_def split: if_splits list.splits)
  from find_end_rest [OF f] have "set rest \<subseteq> set (drop (length start_marker) s)"
    using d by auto
  then show ?thesis using set_drop_subset [of "length start_marker" s] by blast
qed

lemma set_re_sub_plain: "set (re_sub (map Lit t) s) \<subseteq> set t \<union> set s"
proof (induction s rule: length_induct)
  case (1 s)
  show ?case
  proof (cases s)
    case Nil
    then show ?thesis by simp
  next
    case (Cons c cs)
    show ?thesis
    proof (cases "match_here (c # cs)")
      case None
      have "set (re_sub (map Lit t) cs) \<subseteq> set t \<union> set cs"
        using 1 Cons by simp
      with None Cons show ?thesis by (auto simp: re_sub_plain_Cons)
    next
      case (Some m)
      obtain g rest where m: "m = (g, rest)" by (cases m)
      from Some m have mh: "match_here (c # cs) = Some (g, rest)" by simp
      from match_here_shorter [OF mh] have "length rest < length s" using Cons by simp
      with 1 have "set (re_sub (map Lit t) rest) \<subseteq> set t \<union> set rest" by simp
      moreover from match_here_rest [OF mh] have "set rest \<subseteq> set s" using Cons by simp
      ultimately show ?thesis using mh Cons
        by (auto simp: re_sub_plain_Cons simp del: re_sub.simps(2))
    qed
  qed
qed

lemma replacement_no_cr:
  assumes "\<forall>v\<in>set versions. plain_fields v"
  shows "cr \<notin> set (replacement versions)"
proof -
  let ?rows = "map (\<lambda>v. join '' | '' (table_row v)) versions"
  have "\<forall>l\<in>set ?rows. cr \<notin> set l"
    using assms by (auto simp: plain_fields_def plain_text_def table_row_def cr_def)
  moreover have "set (join [nl] ?rows) \<subseteq> set [nl] \<union> \<Union> (set ` set ?rows)" by (rule set_join)
  ultimately have body: "cr \<notin> set (join [nl] ?rows)"
    by (auto simp: nl_def cr_def)
  have head: "cr \<notin> set (join '' | '' headings)"
    "cr \<notin> set (join '' | '' (map (\<lambda>h. ''---'') headings))"
    by (simp_all add: headings_def cr_def)
  have "cr \<notin> set (tags_table versions)"
    using body head by (auto simp: tags_table_def Let_def comp_def nl_def cr_def)
  then show ?thesis
    by (simp add: replacement_def start_marker_def start_words_def end_marker_def nl_def cr_def)
qed

text \<open>
  The update of the file, for plain version data: it succeeds, and the file it leaves is a
  fixed point of the update.
\<close>

lemma update_readme_fixed:
  assumes "\<forall>v\<in>set versions. plain_fields v"
  shows "\<exists>r. update_readme_tags_table versions dry_run (Some content) = Inr (Some r)
           \<and> update_readme_tags_table versions dry_run (Some r) = Inr (Some r)
           \<and> (dry_run \<longrightarrow> r = content)
           \<and> (\<not> dry_run \<longrightarrow> readme_new_text versions (read_text content) = Inr (read_text r)
                \<and> readme_new_text versions (read_text r) = Inr (read_text r))"
proof -
  let ?readme = "read_text content"
  from readme_new_text_idempotent [OF assms, of ?readme] obtain new where
    n1: "readme_new_text versions ?readme = Inr new" and n2: "readme_new_text versions new = Inr new"
    by blast
  show ?thesis
  proof (cases "?readme \<noteq> new \<and> \<not> dry_run")
    case True
    have "new = re_sub (map Lit (replacement versions)) ?readme"
      using n1 by (simp add: readme_new_text_plain [OF assms])
    then have "set new \<subseteq> set (replacement versions) \<union> set ?readme"
      using set_re_sub_plain [of "replacement versions" ?readme] by simp
    then have "cr \<notin> set new"
      using replacement_no_cr [OF assms] read_text_no_cr [of content] by blast
    then have rd: "read_text new = new" by (rule read_text_id)
    have 1: "update_readme_tags_table versions dry_run (Some content) = Inr (Some new)"
      using True n1 by (simp add: update_readme_tags_table_def)
    have 2: "update_readme_tags_table versions dry_run (Some new) = Inr (Some new)"
      using n2 rd by (simp add: update_readme_tags_table_def)
    from 1 2 True n1 n2 rd show ?thesis by auto
  next
    case False
    then have 1: "update_readme_tags_table versions dry_run (Some content) = Inr (Some content)"
      using n1 by (auto simp: update_readme_tags_table_def)
    from False n1 have "\<not> dry_run \<longrightarrow> readme_new_text versions ?readme = Inr ?readme" by auto
    with 1 show ?thesis by auto
  qed
qed

text \<open>
  C6, as far as it holds. For version data without line feed, carriage return and
  backslash in its texts, and every content of the file \<open>README.md\<close>: the update succeeds,
  and the file it leaves is a fixed point of the update. So a second run with the same data
  computes the text it reads, does not write, and leaves the file, the table and all that
  surrounds it, as the first run left it: two runs give what one run gives.
\<close>

theorem update_readme_idempotent:
  assumes "\<forall>v\<in>set versions. plain_fields v"
  shows "(\<exists>r. update_readme_tags_table versions dry_run (Some content) = Inr (Some r)
           \<and> update_readme_tags_table versions dry_run (Some r) = Inr (Some r)
           \<and> (dry_run \<longrightarrow> r = content)
           \<and> (\<not> dry_run \<longrightarrow> readme_new_text versions (read_text content) = Inr (read_text r)
                \<and> readme_new_text versions (read_text r) = Inr (read_text r)))
       \<and> (\<exists>r. readme_after 1 versions (Some content) = Inr (Some r)
             \<and> readme_after 2 versions (Some content) = Inr (Some r))"
proof
  show "\<exists>r. update_readme_tags_table versions dry_run (Some content) = Inr (Some r)
           \<and> update_readme_tags_table versions dry_run (Some r) = Inr (Some r)
           \<and> (dry_run \<longrightarrow> r = content)
           \<and> (\<not> dry_run \<longrightarrow> readme_new_text versions (read_text content) = Inr (read_text r)
                \<and> readme_new_text versions (read_text r) = Inr (read_text r))"
    by (rule update_readme_fixed [OF assms])
next
  from update_readme_fixed [OF assms, of False content] obtain r where
    "update_readme_tags_table versions False (Some content) = Inr (Some r)"
    "update_readme_tags_table versions False (Some r) = Inr (Some r)" by blast
  then have "readme_after 1 versions (Some content) = Inr (Some r)
             \<and> readme_after 2 versions (Some content) = Inr (Some r)"
    by (simp add: numeral_2_eq_2)
  then show "\<exists>r. readme_after 1 versions (Some content) = Inr (Some r)
             \<and> readme_after 2 versions (Some content) = Inr (Some r)" ..
qed

theorem update_readme_idempotent_witness:
  "plain_fields example_new \<and> plain_fields example_same
   \<and> (\<exists>r. update_readme_tags_table [example_new, example_same] False (Some example_readme_crlf)
            = Inr (Some r)
          \<and> r \<noteq> example_readme_crlf
          \<and> update_readme_tags_table [example_new, example_same] False (Some r) = Inr (Some r))
   \<and> readme_after 2 [example_new, example_same] (Some example_readme_crlf)
       = readme_after 1 [example_new, example_same] (Some example_readme_crlf)"
proof -
  have p: "plain_fields example_new" "plain_fields example_same"
    by (simp_all add: plain_fields_def plain_text_def example_new_def example_old_def
        example_same_def nl_def cr_def backslash_def)
  then have h: "\<forall>v\<in>set [example_new, example_same]. plain_fields v" by simp
  have n: "update_readme_tags_table [example_new, example_same] False (Some example_readme_crlf)
      \<noteq> Inr (Some example_readme_crlf)"
    by code_simp
  from update_readme_idempotent [OF h, of False example_readme_crlf] obtain r r' where
    r: "update_readme_tags_table [example_new, example_same] False (Some example_readme_crlf)
          = Inr (Some r)"
      "update_readme_tags_table [example_new, example_same] False (Some r) = Inr (Some r)"
    and a: "readme_after 1 [example_new, example_same] (Some example_readme_crlf) = Inr (Some r')"
      "readme_after 2 [example_new, example_same] (Some example_readme_crlf) = Inr (Some r')"
    by blast
  from r n have "r \<noteq> example_readme_crlf" by auto
  with p r a show ?thesis by auto
qed

text \<open>
  C6 as stated, for every version sequence, fails. The distro of the one combination holds
  a carriage return and the closing word of the region. The first run writes it into the
  table; the second run reads the carriage return as a line break, finds the region ending
  inside the table, and writes a file that is longer by the rest of the old region; and so
  does every run after it.
\<close>

theorem update_readme_grows_counterexample:
  "map_sum id (map_option length) (readme_after 1 [example_crafted] (Some example_readme))
     = Inr (Some 194)
   \<and> map_sum id (map_option length) (readme_after 2 [example_crafted] (Some example_readme))
     = Inr (Some 203)
   \<and> map_sum id (map_option length) (readme_after 3 [example_crafted] (Some example_readme))
     = Inr (Some 212)
   \<and> readme_after 2 [example_crafted] (Some example_readme)
       \<noteq> readme_after 1 [example_crafted] (Some example_readme)"
  by code_simp

subsection \<open>Runs of the pipeline\<close>

lemma build_all_not_exited: "fst (build_all env keys dry_run debug todo m) \<noteq> Exited n"
proof (induction todo arbitrary: m)
  case Nil
  then show ?case by simp
next
  case (Cons v todo)
  show ?case
    using Cons.IH by (cases dry_run; cases debug; simp add: Let_def split: sum.splits)
qed

lemma build_new_or_updated_nothing:
  "new_or_updated current versions force = [] \<Longrightarrow>
   build_new_or_updated env current versions dry_run debug force m = (Returned, say NoNewOrUpdated m)"
  by (simp add: build_new_or_updated_def)

lemma build_new_or_updated_login_fails:
  "login_raises env \<Longrightarrow> new_or_updated current versions force \<noteq> [] \<Longrightarrow>
   build_new_or_updated env current versions dry_run debug force m =
     (Exited 1, say IsEnvVarSet (say (CouldNotLogin (dockerhub_username env))
                  (call (Login (dockerhub_username env)) m)))"
  by (simp add: build_new_or_updated_def Let_def)

lemma build_new_or_updated_exited:
  "fst (build_new_or_updated env current versions dry_run debug force m) = Exited n \<Longrightarrow>
   n = 1 \<and> login_raises env \<and> new_or_updated current versions force \<noteq> []"
  by (auto simp: build_new_or_updated_def Let_def build_all_not_exited split: if_splits sum.splits)

lemma docker_calls_say [simp]: "docker_calls (say l m) = docker_calls m"
  by (simp add: say_def)

lemma docker_calls_says [simp]: "docker_calls (says ls m) = docker_calls m"
  by (simp add: says_def)

lemma docker_calls_call [simp]: "docker_calls (call c m) = docker_calls m @ [c]"
  by (simp add: call_def)

lemma docker_calls_persist [simp]: "docker_calls (persist_versions vs dry_run m) = docker_calls m"
  by (simp add: persist_versions_def)

lemma build_new_or_updated_calls_login_fails:
  assumes "login_raises env"
  shows "docker_calls (snd (build_new_or_updated env current versions dry_run debug force m))
           = docker_calls m
       \<or> docker_calls (snd (build_new_or_updated env current versions dry_run debug force m))
           = docker_calls m @ [Login (dockerhub_username env)]"
  using assms by (simp add: build_new_or_updated_def Let_def)

text \<open>
  The ways \<open>main\<close> can end: an exception before the build step, in a machine that has made
  no call to the Docker client, or the way \<open>build_new_or_updated\<close> ends in such a machine.
\<close>

lemma main_cases:
  assumes "\<And>e m'. docker_calls m' = docker_calls m \<Longrightarrow> Q (Raised e, m' :: machine)"
    and "\<And>cur vs m'. docker_calls m' = docker_calls m \<Longrightarrow>
           Q (build_new_or_updated env cur vs dry_run debug force m')"
  shows "Q (main env distros dry_run debug force m)"
  by (simp add: main_def Let_def assms split: sum.splits prod.splits)

lemma main_exited:
  "fst (main env distros dry_run debug force m) = Exited n \<longrightarrow> n = 1 \<and> login_raises env"
  by (rule main_cases) (auto dest: build_new_or_updated_exited)

lemma main_calls_login_fails:
  assumes "login_raises env"
  shows "docker_calls (snd (main env distros dry_run debug force m)) = docker_calls m
       \<or> docker_calls (snd (main env distros dry_run debug force m))
           = docker_calls m @ [Login (dockerhub_username env)]"
proof (rule main_cases)
  fix e cur vs and m' :: machine
  assume m': "docker_calls m' = docker_calls m"
  show "docker_calls (snd (Raised e, m')) = docker_calls m
      \<or> docker_calls (snd (Raised e, m')) = docker_calls m @ [Login (dockerhub_username env)]"
    using m' by simp
  show "docker_calls (snd (build_new_or_updated env cur vs dry_run debug force m')) = docker_calls m
      \<or> docker_calls (snd (build_new_or_updated env cur vs dry_run debug force m'))
          = docker_calls m @ [Login (dockerhub_username env)]"
    using build_new_or_updated_calls_login_fails [OF assms, of cur vs dry_run debug force m'] m'
    by simp
qed

text \<open>
  C5, as far as it holds. When the new-or-updated list is empty, \<open>build_new_or_updated\<close>
  prints that there is nothing to do and returns; it changes neither the state file nor
  the README and calls the Docker client not at all. In a run of \<open>main\<close> that gets there,
  the state file and the README have been written before, unless the run is a dry run: the
  state file then holds the new sequence.
\<close>

theorem nothing_to_do:
  assumes "new_or_updated current versions force = []"
  shows "build_new_or_updated env current versions dry_run debug force m
           = (Returned, m\<lparr>console := console m @ [NoNewOrUpdated]\<rparr>)
       \<and> (versions_json m = Some current
            \<and> decide_python_versions env (set_order env distros) = (Inr pv, out1)
            \<and> decide_nodejs_versions env = (Inr nv, out2)
            \<and> version_combinations nv pv = Inr versions
            \<and> update_readme_tags_table versions dry_run (readme_md m) = Inr readme
          \<longrightarrow> main env distros dry_run debug force m
                = (Returned,
                   m\<lparr>versions_json := (if dry_run then Some current else Some versions),
                     readme_md := readme,
                     console := console m @ out1 @ out2 @ [NoNewOrUpdated]\<rparr>))"
proof (intro conjI impI)
  show "build_new_or_updated env current versions dry_run debug force m
           = (Returned, m\<lparr>console := console m @ [NoNewOrUpdated]\<rparr>)"
    using assms by (simp add: build_new_or_updated_nothing say_def)
next
  assume a: "versions_json m = Some current
            \<and> decide_python_versions env (set_order env distros) = (Inr pv, out1)
            \<and> decide_nodejs_versions env = (Inr nv, out2)
            \<and> version_combinations nv pv = Inr versions
            \<and> update_readme_tags_table versions dry_run (readme_md m) = Inr readme"
  then have r: "update_readme_tags_table versions dry_run
        (readme_md (persist_versions versions dry_run (says out2 (says out1 m)))) = Inr readme"
    by (cases dry_run) (simp_all add: persist_versions_def says_def)
  show "main env distros dry_run debug force m
                = (Returned,
                   m\<lparr>versions_json := (if dry_run then Some current else Some versions),
                     readme_md := readme,
                     console := console m @ out1 @ out2 @ [NoNewOrUpdated]\<rparr>)"
    using a r assms
    by (cases dry_run)
      (simp_all add: main_def load_versions_def build_new_or_updated_nothing say_def says_def
        persist_versions_def)
qed

lemma example_versions:
  "decide_python_versions example_env (set_order example_env [''buster''])
     = (Inr [\<lparr>p_canonical_version = ''3.9.2'', p_image = ''3.9.2-buster'', p_key = ''3.9'',
              p_distro = ''buster''\<rparr>], [])"
  "decide_nodejs_versions example_env = (Inr [\<lparr>n_canonical_version = ''18.1.0'', n_key = ''18''\<rparr>], [])"
  "version_combinations [\<lparr>n_canonical_version = ''18.1.0'', n_key = ''18''\<rparr>]
       [\<lparr>p_canonical_version = ''3.9.2'', p_image = ''3.9.2-buster'', p_key = ''3.9'',
              p_distro = ''buster''\<rparr>] = Inr [example_new]"
  unfolding example_new_def example_old_def by code_simp+

lemma example_readme_updates:
  "\<exists>r. update_readme_tags_table [example_new] False (Some example_readme) = Inr r"
  using update_readme_fixed [of "[example_new]" False example_readme]
  by (auto simp: plain_fields_def plain_text_def example_new_def example_old_def nl_def cr_def
      backslash_def)

theorem nothing_to_do_witness:
  "new_or_updated [example_new] [example_new] False = []
   \<and> fst (main example_env [''buster''] False False False (example_machine [example_new])) = Returned
   \<and> versions_json (snd (main example_env [''buster''] False False False (example_machine [example_new])))
       = Some [example_new]
   \<and> docker_calls (snd (main example_env [''buster''] False False False (example_machine [example_new]))) = []
   \<and> console (snd (main example_env [''buster''] False False False (example_machine [example_new])))
       = [NoNewOrUpdated]"
proof -
  have n: "new_or_updated [example_new] [example_new] False = []"
    by (simp add: new_or_updated_def index_by_key_def)
  obtain r where r: "update_readme_tags_table [example_new] False (Some example_readme) = Inr r"
    using example_readme_updates by blast
  from nothing_to_do [OF n, of example_env False False "example_machine [example_new]"
      "[''buster'']" _ "[]" _ "[]" r] example_versions r
  show ?thesis
    by (simp add: n example_machine_def)
qed

text \<open>
  C5 as stated, for every run of the pipeline, fails. The state file holds two
  combinations, the run decides on the first alone and finds it unchanged: nothing is new or
  updated and nothing is built, but the state file has been rewritten and holds one
  combination.
\<close>

theorem state_file_rewritten_counterexample:
  "new_or_updated [example_new, example_same] [example_new] False = []
   \<and> fst (main example_env [''buster''] False False False
           (example_machine [example_new, example_same])) = Returned
   \<and> console (snd (main example_env [''buster''] False False False
           (example_machine [example_new, example_same]))) = [NoNewOrUpdated]
   \<and> versions_json (example_machine [example_new, example_same]) = Some [example_new, example_same]
   \<and> versions_json (snd (main example_env [''buster''] False False False
           (example_machine [example_new, example_same]))) = Some [example_new]"
proof -
  have n: "new_or_updated [example_new, example_same] [example_new] False = []"
    by (simp add: new_or_updated_def index_by_key_def example_new_def example_old_def example_same_def)
  obtain r where r: "update_readme_tags_table [example_new] False (Some example_readme) = Inr r"
    using example_readme_updates by blast
  have "main example_env [''buster''] False False False (example_machine [example_new, example_same])
      = (Returned, (example_machine [example_new, example_same])
           \<lparr>versions_json := Some [example_new], readme_md := r,
             console := [NoNewOrUpdated]\<rparr>)"
    using example_versions n r
    by (simp add: main_def load_versions_def build_new_or_updated_nothing say_def says_def
        persist_versions_def example_machine_def)
  with n show ?thesis by (simp add: example_machine_def)
qed

text \<open>
  C8, as far as it holds. When the login raises the API error, \<open>build_new_or_updated\<close>
  prints its two lines and ends the process with status 1, having called the Docker client
  for the login alone; a run of \<open>main\<close> with such a login makes no call to the Docker client
  but, at most, that login. And \<open>exit\<close> is reached on that path only: a run that ends by
  \<open>exit\<close> ends with status 1 after a failed login.
\<close>

theorem login_failure_is_fatal:
  "(login_raises env \<and> new_or_updated current versions force \<noteq> [] \<longrightarrow>
      build_new_or_updated env current versions dry_run debug force m
        = (Exited 1,
           m\<lparr>console := console m @ [CouldNotLogin (dockerhub_username env), IsEnvVarSet],
             docker_calls := docker_calls m @ [Login (dockerhub_username env)]\<rparr>)
      \<and> exit_status (fst (build_new_or_updated env current versions dry_run debug force m)) = 1)
   \<and> (login_raises env \<longrightarrow>
        docker_calls (snd (main env distros dry_run debug force m)) = docker_calls m
        \<or> docker_calls (snd (main env distros dry_run debug force m))
           = docker_calls m @ [Login (dockerhub_username env)])
   \<and> (fst (build_new_or_updated env current versions dry_run debug force m) = Exited n \<longrightarrow>
        n = 1 \<and> login_raises env)
   \<and> (fst (main env distros dry_run debug force m) = Exited n \<longrightarrow> n = 1 \<and> login_raises env)"
proof (intro conjI impI)
  assume a: "login_raises env \<and> new_or_updated current versions force \<noteq> []"
  then show b: "build_new_or_updated env current versions dry_run debug force m
        = (Exited 1,
           m\<lparr>console := console m @ [CouldNotLogin (dockerhub_username env), IsEnvVarSet],
             docker_calls := docker_calls m @ [Login (dockerhub_username env)]\<rparr>)"
    by (simp add: build_new_or_updated_login_fails say_def call_def)
  show "exit_status (fst (build_new_or_updated env current versions dry_run debug force m)) = 1"
    unfolding b by (simp add: exit_status_def)
next
  assume "login_raises env"
  then show "docker_calls (snd (main env distros dry_run debug force m)) = docker_calls m
        \<or> docker_calls (snd (main env distros dry_run debug force m))
           = docker_calls m @ [Login (dockerhub_username env)]"
    by (rule main_calls_login_fails)
next
  assume "fst (build_new_or_updated env current versions dry_run debug force m) = Exited n"
  then show "n = 1" "login_raises env" by (auto dest: build_new_or_updated_exited)
next
  assume "fst (main env distros dry_run debug force m) = Exited n"
  then show "n = 1" "login_raises env" using main_exited by blast+
qed

lemma example_todo: "new_or_updated [example_old] [example_new] False = [example_new]"
  by (simp add: new_or_updated_def index_by_key_def example_new_def example_old_def)

text \<open>
  The example run with a state file that holds the older entry reaches the build step,
  whatever the Docker client and the templates do.
\<close>

lemma example_run_reaches_build:
  assumes "fetch_tags env = fetch_tags example_env"
    and "python_releases env = python_releases example_env"
    and "nodejs_releases env = nodejs_releases example_env"
    and "todays_date env = todays_date example_env"
    and "set_order env = set_order example_env"
  shows "\<exists>r. main env [''buster''] False False False (example_machine [example_old])
        = build_new_or_updated env [example_old] [example_new] False False False
            ((example_machine [example_new])\<lparr>readme_md := r\<rparr>)"
proof -
  have p: "decide_python_versions env (set_order env [''buster''])
      = decide_python_versions example_env (set_order example_env [''buster''])"
    unfolding decide_python_versions_def assms by (rule refl)
  have n: "decide_nodejs_versions env = decide_nodejs_versions example_env"
    unfolding decide_nodejs_versions_def assms by (rule refl)
  obtain r where r: "update_readme_tags_table [example_new] False (Some example_readme) = Inr r"
    using example_readme_updates by blast
  have "main env [''buster''] False False False (example_machine [example_old])
        = build_new_or_updated env [example_old] [example_new] False False False
            ((example_machine [example_new])\<lparr>readme_md := r\<rparr>)"
    using example_versions r
    by (simp add: main_def p n load_versions_def persist_versions_def says_def example_machine_def)
  then show ?thesis by blast
qed

theorem login_failure_is_fatal_witness:
  "login_raises (example_env\<lparr>login_raises := True\<rparr>)
   \<and> new_or_updated [example_old] [example_new] False = [example_new]
   \<and> fst (main (example_env\<lparr>login_raises := True\<rparr>) [''buster''] False False False
           (example_machine [example_old])) = Exited 1
   \<and> docker_calls (snd (main (example_env\<lparr>login_raises := True\<rparr>) [''buster''] False False False
        (example_machine [example_old]))) = [Login (Some ''user'')]"
proof -
  let ?env = "example_env\<lparr>login_raises := True\<rparr>"
  have l: "login_raises ?env" by simp
  have t: "new_or_updated [example_old] [example_new] False \<noteq> []" by (simp add: example_todo)
  from example_run_reaches_build [of ?env] obtain r where
    m: "main ?env [''buster''] False False False (example_machine [example_old])
        = build_new_or_updated ?env [example_old] [example_new] False False False
            ((example_machine [example_new])\<lparr>readme_md := r\<rparr>)"
    by auto
  from login_failure_is_fatal [of ?env "[example_old]" "[example_new]" False False False
      "(example_machine [example_new])\<lparr>readme_md := r\<rparr>"] l t
  have "build_new_or_updated ?env [example_old] [example_new] False False False
            ((example_machine [example_new])\<lparr>readme_md := r\<rparr>)
        = (Exited 1,
           ((example_machine [example_new])\<lparr>readme_md := r\<rparr>)
             \<lparr>console := console ((example_machine [example_new])\<lparr>readme_md := r\<rparr>)
                  @ [CouldNotLogin (dockerhub_username ?env), IsEnvVarSet],
              docker_calls := docker_calls ((example_machine [example_new])\<lparr>readme_md := r\<rparr>)
                  @ [Login (dockerhub_username ?env)]\<rparr>)"
    by blast
  with m l show ?thesis
    by (simp add: example_todo example_machine_def example_env_def)
qed

text \<open>
  C8 as stated fails in its second half: a run also ends with a nonzero status when an
  exception leaves \<open>main\<close>. Here the login succeeds and the build of the image raises, and
  in the second run the state file cannot be read.
\<close>

theorem nonzero_exit_without_login_failure_counterexample:
  "\<not> login_raises (example_env\<lparr>build_raises := (\<lambda>tag. True)\<rparr>)
   \<and> fst (main (example_env\<lparr>build_raises := (\<lambda>tag. True)\<rparr>) [''buster''] False False False
           (example_machine [example_old])) = Raised BuildError
   \<and> exit_status (fst (main (example_env\<lparr>build_raises := (\<lambda>tag. True)\<rparr>) [''buster''] False False
           False (example_machine [example_old]))) = 1
   \<and> \<not> login_raises example_env
   \<and> fst (main example_env [''buster''] False False False
           ((example_machine [])\<lparr>versions_json := None\<rparr>)) = Raised OSError
   \<and> exit_status (fst (main example_env [''buster''] False False False
         ((example_machine [])\<lparr>versions_json := None\<rparr>))) = 1"
proof -
  let ?env = "example_env\<lparr>build_raises := (\<lambda>tag. True)\<rparr>"
  from example_run_reaches_build [of ?env] obtain r where
    m: "main ?env [''buster''] False False False (example_machine [example_old])
        = build_new_or_updated ?env [example_old] [example_new] False False False
            ((example_machine [example_new])\<lparr>readme_md := r\<rparr>)"
    by auto
  have rd: "render_dockerfile ?env example_new ''KEY1 KEY2''
      = Inr (''FROM python:3.9.2-buster'' @ [CHR 0x0A] @ ''RUN npm install -g npm@7'')"
    unfolding example_new_def example_old_def example_env_def by code_simp
  have b: "fst (main ?env [''buster''] False False False (example_machine [example_old]))
      = Raised BuildError"
    unfolding m using rd
    by (simp add: build_new_or_updated_def example_todo example_env_def Let_def)
  have o: "fst (main example_env [''buster''] False False False
      ((example_machine [])\<lparr>versions_json := None\<rparr>)) = Raised OSError"
    by (simp add: main_def load_versions_def example_machine_def)
  show ?thesis
    unfolding b o by (simp add: exit_status_def example_env_def)
qed

end
